theory Spec2Isabelle
  imports
    Complex_Main
    "HOL-Library.Product_Lexorder"
    "HOL-Library.List_Lexorder"
    "HOL-Library.Char_ord"
    "HOL-Library.AList"
    "HOL-Library.Log_Nat"
begin

section \<open>Calendar dates and timestamps\<close>

text \<open>
  The notebooks use \<^verbatim>\<open>datetime.date\<close> and pandas \<^verbatim>\<open>Timestamp\<close> values. A date is
  modelled by its proleptic Gregorian ordinal (\<^verbatim>\<open>date.toordinal()\<close>): comparison of two
  dates is comparison of ordinals and \<^verbatim>\<open>(a - b).days\<close> is their difference. A
  timestamp is modelled as pandas stores it, as the number of nanoseconds since
  1970-01-01T00:00:00.
\<close>

type_synonym date = int
type_synonym timestamp = int

definition is_leap :: "int \<Rightarrow> bool" where
  "is_leap year = (year mod 4 = 0 \<and> (year mod 100 \<noteq> 0 \<or> year mod 400 = 0))"

definition days_before_year :: "int \<Rightarrow> int" where
  "days_before_year year =
     (let y = year - 1 in y * 365 + y div 4 - y div 100 + y div 400)"

definition days_before_month :: "int \<Rightarrow> int \<Rightarrow> int" where
  "days_before_month year month =
     [0, 31, 59, 90, 120, 151, 181, 212, 243, 273, 304, 334] ! nat (month - 1)
       + (if month > 2 \<and> is_leap year then 1 else 0)"

text \<open>\<^verbatim>\<open>dt.date(year, month, day)\<close>; the source only builds the four constant dates below.\<close>

definition dt_date :: "int \<Rightarrow> int \<Rightarrow> int \<Rightarrow> date" where
  "dt_date year month day = days_before_year year + days_before_month year month + day"

definition ns_per_day :: int where
  "ns_per_day = 86400000000000"

definition epoch_ordinal :: date where
  "epoch_ordinal = 719163"

text \<open>\<^verbatim>\<open>Timestamp.date()\<close>: the calendar day a timestamp falls on.\<close>

definition ts_date :: "timestamp \<Rightarrow> date" where
  "ts_date x = epoch_ordinal + x div ns_per_day"

text \<open>The timestamp a date is coerced to when a timestamp column is compared with it.\<close>

definition midnight :: "date \<Rightarrow> timestamp" where
  "midnight d = (d - epoch_ordinal) * ns_per_day"

section \<open>Customer lifetime value: the RFM pipeline\<close>

subsection \<open>Transactions\<close>

text \<open>
  One row of \<^verbatim>\<open>OnlineRetail.csv\<close>, with the columns the pipeline reads. The customer
  id column is read as a float column with missing values; \<open>None\<close> is NaN. Unit
  prices and amounts are rationals. The pipeline below adds and multiplies them exactly;
  the float64 arithmetic in which the source computes the \<^verbatim>\<open>Amount\<close> column and its
  sum per group is modelled in the subsection on float64 arithmetic.
\<close>

record 'c sale =
  InvoiceNo :: string
  Quantity :: int
  InvoiceDate :: timestamp
  UnitPrice :: rat
  CustomerID :: 'c

text \<open>
  \<^verbatim>\<open>data = data[np.isnan(data.CustomerID) == False]\<close>
  \<^verbatim>\<open>data['CustomerID'] = pd.to_numeric(data['CustomerID'], downcast='integer')\<close>
\<close>

definition to_numeric :: "int option sale \<Rightarrow> int sale" where
  "to_numeric r =
     \<lparr>InvoiceNo = InvoiceNo r, Quantity = Quantity r, InvoiceDate = InvoiceDate r,
      UnitPrice = UnitPrice r, CustomerID = the (CustomerID r)\<rparr>"

definition drop_missing_customers :: "int option sale list \<Rightarrow> int sale list" where
  "drop_missing_customers data = map to_numeric (filter (\<lambda>r. CustomerID r \<noteq> None) data)"

text \<open>\<^verbatim>\<open>data = data[data['InvoiceDate'] < dt.date(2011, 12, 1)]\<close>\<close>

definition date_window :: "int sale list \<Rightarrow> int sale list" where
  "date_window data = filter (\<lambda>r. InvoiceDate r < midnight (dt_date 2011 12 1)) data"

text \<open>
  \<^verbatim>\<open>clean_data = data[data['Quantity'] > 0].copy()\<close>
  \<^verbatim>\<open>clean_data = clean_data[clean_data['UnitPrice'] > 0]\<close>
  \<^verbatim>\<open>clean_data = clean_data[clean_data['Quantity'] < 30]\<close>
  \<^verbatim>\<open>clean_data = clean_data[clean_data['UnitPrice'] < 30]\<close>
\<close>

definition outlier_filter :: "int sale list \<Rightarrow> int sale list" where
  "outlier_filter data =
     (let clean_data = filter (\<lambda>r. Quantity r > 0) data;
          clean_data = filter (\<lambda>r. UnitPrice r > 0) clean_data;
          clean_data = filter (\<lambda>r. Quantity r < 30) clean_data;
          clean_data = filter (\<lambda>r. UnitPrice r < 30) clean_data
      in clean_data)"

subsection \<open>Period Assigner\<close>

definition get_period :: "timestamp \<Rightarrow> int" where
  "get_period x = (if ts_date x < dt_date 2011 6 1 then 1 else 2)"

record period_sale = "int sale" +
  HalfYear :: int
  NextHalfYear :: int
  Amount :: rat

text \<open>
  \<^verbatim>\<open>clean_data['HalfYear'] = clean_data.InvoiceDate.apply(get_period)\<close>
  \<^verbatim>\<open>clean_data['NextHalfYear'] = clean_data['HalfYear'] + 1\<close>
  \<^verbatim>\<open>clean_data['Amount'] = clean_data.apply(lambda x: x.Quantity * x.UnitPrice, axis=1)\<close>
\<close>

definition add_period_columns :: "int sale \<Rightarrow> period_sale" where
  "add_period_columns r =
     (let half_year = get_period (InvoiceDate r);
          next_half_year = half_year + 1;
          amount = of_int (Quantity r) * UnitPrice r
      in \<lparr>InvoiceNo = InvoiceNo r, Quantity = Quantity r, InvoiceDate = InvoiceDate r,
          UnitPrice = UnitPrice r, CustomerID = CustomerID r,
          HalfYear = half_year, NextHalfYear = next_half_year, Amount = amount\<rparr>)"

definition assign_periods :: "int sale list \<Rightarrow> period_sale list" where
  "assign_periods clean_data = map add_period_columns clean_data"

subsection \<open>RFM Aggregator\<close>

text \<open>
  \<^verbatim>\<open>clean_data.groupby(['CustomerID','HalfYear','NextHalfYear'], as_index=False).agg(aggregations)\<close>
  yields one row per key that occurs, in ascending key order, with the sum of
  \<^verbatim>\<open>Amount\<close>, the maximum of \<^verbatim>\<open>InvoiceDate\<close> and the number of distinct
  \<^verbatim>\<open>InvoiceNo\<close> values of the rows of the group.
\<close>

record agg_row =
  agg_CustomerID :: int
  agg_HalfYear :: int
  agg_NextHalfYear :: int
  agg_Amount :: rat
  agg_InvoiceDate :: timestamp
  agg_InvoiceNo :: nat

definition group_key :: "period_sale \<Rightarrow> int \<times> int \<times> int" where
  "group_key r = (CustomerID r, HalfYear r, NextHalfYear r)"

definition group_rows :: "period_sale list \<Rightarrow> int \<times> int \<times> int \<Rightarrow> period_sale list" where
  "group_rows clean_data k = filter (\<lambda>r. group_key r = k) clean_data"

definition nunique :: "'a list \<Rightarrow> nat" where
  "nunique xs = length (remdups xs)"

definition aggregate :: "period_sale list \<Rightarrow> int \<times> int \<times> int \<Rightarrow> agg_row" where
  "aggregate clean_data k =
     (let g = group_rows clean_data k
      in \<lparr>agg_CustomerID = fst k, agg_HalfYear = fst (snd k), agg_NextHalfYear = snd (snd k),
          agg_Amount = sum_list (map Amount g),
          agg_InvoiceDate = Max (set (map InvoiceDate g)),
          agg_InvoiceNo = nunique (map InvoiceNo g)\<rparr>)"

definition groupby_agg :: "period_sale list \<Rightarrow> agg_row list" where
  "groupby_agg clean_data =
     map (aggregate clean_data) (sort (remdups (map group_key clean_data)))"

definition recency :: "agg_row \<Rightarrow> int" where
  "recency x =
     (let ref_date = (if agg_HalfYear x = 1 then dt_date 2011 5 31 else dt_date 2011 11 30)
      in ref_date - ts_date (agg_InvoiceDate x))"

record rfm_row =
  rfm_CustomerID :: int
  rfm_HalfYear :: int
  rfm_NextHalfYear :: int
  R :: int
  F :: nat
  M :: rat

text \<open>
  \<^verbatim>\<open>rfm_data['R'] = rfm_data.apply(recency, axis=1)\<close>, the renaming of
  \<^verbatim>\<open>InvoiceNo\<close> to \<^verbatim>\<open>F\<close> and of \<^verbatim>\<open>Amount\<close> to \<^verbatim>\<open>M\<close>, and the column selection.
\<close>

definition to_rfm :: "agg_row \<Rightarrow> rfm_row" where
  "to_rfm x =
     \<lparr>rfm_CustomerID = agg_CustomerID x, rfm_HalfYear = agg_HalfYear x,
      rfm_NextHalfYear = agg_NextHalfYear x,
      R = recency x, F = agg_InvoiceNo x, M = agg_Amount x\<rparr>"

definition rfm_aggregator :: "period_sale list \<Rightarrow> rfm_row list" where
  "rfm_aggregator clean_data = map to_rfm (groupby_agg clean_data)"

subsection \<open>Float64 arithmetic of the monetary column\<close>

text \<open>
  \<^verbatim>\<open>UnitPrice\<close> is a float64 column, so \<^verbatim>\<open>x.Quantity * x.UnitPrice\<close> is a float64
  product and the \<^verbatim>\<open>sum\<close> of the groupby adds float64 values, row by row from 0.
  A float64 value is the rational it denotes. \<open>f64\<close> rounds a rational to the nearest
  float64 value, ties to the even significand: 53 significant bits, with the fixed spacing
  of \<open>2 ^ -1074\<close> below \<open>2 ^ -1022\<close>. Overflow to infinity is not modelled.
\<close>

definition pow2 :: "int \<Rightarrow> rat" where
  "pow2 e = (if 0 \<le> e then 2 ^ nat e else 1 / 2 ^ nat (- e))"

definition round_half_even :: "rat \<Rightarrow> int" where
  "round_half_even x =
     (let n = \<lfloor>x\<rfloor>; d = x - of_int n
      in if d < 1 / 2 then n else if 1 / 2 < d then n + 1 else if even n then n else n + 1)"

text \<open>The exponent of the leading bit: \<open>2 ^ e \<le> \<bar>x\<bar> < 2 ^ (e + 1)\<close> for \<open>x \<noteq> 0\<close>.\<close>

definition exponent :: "rat \<Rightarrow> int" where
  "exponent x =
     (let (p, q) = quotient_of \<bar>x\<bar>; d = bitlen p - bitlen q
      in if pow2 d \<le> \<bar>x\<bar> then d else d - 1)"

definition f64 :: "rat \<Rightarrow> rat" where
  "f64 x =
     (if x = 0 then 0
      else let e = max (exponent x) (- 1022); ulp = pow2 (e - 52)
           in of_int (round_half_even (x / ulp)) * ulp)"

definition f64_sum :: "rat list \<Rightarrow> rat" where
  "f64_sum xs = foldl (\<lambda>sumx val. f64 (sumx + val)) 0 xs"

text \<open>
  The Period Assigner's columns and the aggregation with this arithmetic: the same rows,
  keys, dates and invoice counts, with the \<^verbatim>\<open>Amount\<close> column and its sum computed in
  float64.
\<close>

definition add_period_columns_f64 :: "int sale \<Rightarrow> period_sale" where
  "add_period_columns_f64 r =
     (add_period_columns r)\<lparr>Amount := f64 (of_int (Quantity r) * UnitPrice r)\<rparr>"

definition assign_periods_f64 :: "int sale list \<Rightarrow> period_sale list" where
  "assign_periods_f64 clean = map add_period_columns_f64 clean"

definition aggregate_f64 :: "period_sale list \<Rightarrow> int \<times> int \<times> int \<Rightarrow> agg_row" where
  "aggregate_f64 clean k =
     (aggregate clean k)\<lparr>agg_Amount := f64_sum (map Amount (group_rows clean k))\<rparr>"

definition rfm_aggregator_f64 :: "period_sale list \<Rightarrow> rfm_row list" where
  "rfm_aggregator_f64 clean =
     map to_rfm (map (aggregate_f64 clean) (sort (remdups (map group_key clean))))"

subsection \<open>Label Joiner\<close>

text \<open>
  \<^verbatim>\<open>pd.merge(rfm_data, rfm_data, left_on=['CustomerID','NextHalfYear'],\<close>
  \<^verbatim>\<open>         right_on=['CustomerID','HalfYear'], how='left', suffixes=['','_Next'])\<close>
  A left join keeps the order of the left rows; a left row without a match is kept
  once, with NaN (\<open>None\<close>) in every column of the right side.
\<close>

record merged_row = rfm_row +
  HalfYear_Next :: "int option"
  NextHalfYear_Next :: "int option"
  R_Next :: "int option"
  F_Next :: "nat option"
  M_Next :: "rat option"

definition join_match :: "rfm_row \<Rightarrow> rfm_row \<Rightarrow> bool" where
  "join_match l r =
     (rfm_CustomerID l = rfm_CustomerID r \<and> rfm_NextHalfYear l = rfm_HalfYear r)"

definition joined :: "rfm_row \<Rightarrow> rfm_row \<Rightarrow> merged_row" where
  "joined l r =
     \<lparr>rfm_CustomerID = rfm_CustomerID l, rfm_HalfYear = rfm_HalfYear l,
      rfm_NextHalfYear = rfm_NextHalfYear l, R = R l, F = F l, M = M l,
      HalfYear_Next = Some (rfm_HalfYear r), NextHalfYear_Next = Some (rfm_NextHalfYear r),
      R_Next = Some (R r), F_Next = Some (F r), M_Next = Some (M r)\<rparr>"

definition unmatched :: "rfm_row \<Rightarrow> merged_row" where
  "unmatched l =
     \<lparr>rfm_CustomerID = rfm_CustomerID l, rfm_HalfYear = rfm_HalfYear l,
      rfm_NextHalfYear = rfm_NextHalfYear l, R = R l, F = F l, M = M l,
      HalfYear_Next = None, NextHalfYear_Next = None,
      R_Next = None, F_Next = None, M_Next = None\<rparr>"

definition merge_row :: "rfm_row list \<Rightarrow> rfm_row \<Rightarrow> merged_row list" where
  "merge_row right l =
     (case filter (join_match l) right of
        [] \<Rightarrow> [unmatched l]
      | rs \<Rightarrow> map (joined l) rs)"

definition merge_left :: "rfm_row list \<Rightarrow> rfm_row list \<Rightarrow> merged_row list" where
  "merge_left left right = concat (map (merge_row right) left)"

text \<open>
  The selection of the columns \<^verbatim>\<open>R\<close>, \<^verbatim>\<open>F\<close>, \<^verbatim>\<open>M\<close> and \<^verbatim>\<open>M_Next\<close>, followed by
  \<^verbatim>\<open>rfm_data_final = rfm_data_final[np.isnan(rfm_data_final['M_Next']) == False]\<close>
\<close>

record labeled_row =
  lab_R :: int
  lab_F :: nat
  lab_M :: rat
  lab_M_Next :: "rat option"

definition select_columns :: "merged_row \<Rightarrow> labeled_row" where
  "select_columns x = \<lparr>lab_R = R x, lab_F = F x, lab_M = M x, lab_M_Next = M_Next x\<rparr>"

definition label_joiner :: "rfm_row list \<Rightarrow> labeled_row list" where
  "label_joiner rfm_data =
     filter (\<lambda>x. lab_M_Next x \<noteq> None) (map select_columns (merge_left rfm_data rfm_data))"

subsection \<open>The pipeline from the raw table to the labeled table\<close>

definition clean_data :: "int option sale list \<Rightarrow> period_sale list" where
  "clean_data raw = assign_periods (outlier_filter (date_window (drop_missing_customers raw)))"

definition rfm_data :: "int option sale list \<Rightarrow> rfm_row list" where
  "rfm_data raw = rfm_aggregator (clean_data raw)"

definition rfm_data_final :: "int option sale list \<Rightarrow> labeled_row list" where
  "rfm_data_final raw = label_joiner (rfm_data raw)"

subsection \<open>The notebook as a run over the variables of the kernel\<close>













subsection \<open>Auxiliary notions used to state the properties\<close>

text \<open>The rows of a cleaned table that fall into the group of customer \<open>c\<close> and period \<open>h\<close>.\<close>

definition in_group :: "int \<Rightarrow> int \<Rightarrow> int sale \<Rightarrow> bool" where
  "in_group c h r = (CustomerID r = c \<and> get_period (InvoiceDate r) = h)"

text \<open>The (entity, period) key of an aggregate and of a row of the merge.\<close>

definition rfm_key :: "rfm_row \<Rightarrow> int \<times> int" where
  "rfm_key x = (rfm_CustomerID x, rfm_HalfYear x)"

definition merged_key :: "merged_row \<Rightarrow> int \<times> int" where
  "merged_key x = (rfm_CustomerID x, rfm_HalfYear x)"

text \<open>
  The rows of the merge that survive the filter on \<^verbatim>\<open>M_Next\<close>, before the column
  selection drops the customer id and the period.
\<close>

definition labeled_merged :: "rfm_row list \<Rightarrow> merged_row list" where
  "labeled_merged rfm = filter (\<lambda>x. M_Next x \<noteq> None) (merge_left rfm rfm)"

text \<open>
  The two transactions of the end-to-end example: one customer, 2011-03-01 with quantity 2
  at price 5 and 2011-07-10 with quantity 1 at price 20.
\<close>

definition example_sales :: "int \<Rightarrow> string \<Rightarrow> string \<Rightarrow> int option sale list" where
  "example_sales c i1 i2 =
     [\<lparr>InvoiceNo = i1, Quantity = 2, InvoiceDate = midnight (dt_date 2011 3 1),
       UnitPrice = 5, CustomerID = Some c\<rparr>,
      \<lparr>InvoiceNo = i2, Quantity = 1, InvoiceDate = midnight (dt_date 2011 7 10),
       UnitPrice = 20, CustomerID = Some c\<rparr>]"

text \<open>
  The example with a second customer who bought in the first half-year only.
\<close>

definition example_single_period :: "int option sale list" where
  "example_single_period =
     example_sales 1 ''536365'' ''559001'' @
     [\<lparr>InvoiceNo = ''540001'', Quantity = 3, InvoiceDate = midnight (dt_date 2011 3 1),
       UnitPrice = 4, CustomerID = Some 2\<rparr>]"

text \<open>
  The amount of a transaction as the source computes it and as an exact product.
\<close>

definition f64_amount :: "int sale \<Rightarrow> rat" where
  "f64_amount r = f64 (of_int (Quantity r) * UnitPrice r)"

definition exact_amount :: "int sale \<Rightarrow> rat" where
  "exact_amount r = of_int (Quantity r) * UnitPrice r"

text \<open>
  Two transactions of one customer in the first half-year, with the float64 values of the
  prices 0.1 and 0.2.
\<close>

definition rounding_example :: "int sale list" where
  "rounding_example =
     [\<lparr>InvoiceNo = ''536365'', Quantity = 1, InvoiceDate = midnight (dt_date 2011 3 1),
       UnitPrice = f64 (1 / 10), CustomerID = 1\<rparr>,
      \<lparr>InvoiceNo = ''536366'', Quantity = 1, InvoiceDate = midnight (dt_date 2011 3 1),
       UnitPrice = f64 (1 / 5), CustomerID = 1\<rparr>]"

section \<open>Movie recommendations: the Implicit Rating Deriver\<close>

subsection \<open>Counting actions\<close>

text \<open>
  One row of \<^verbatim>\<open>movie_customer_actions.csv\<close>, with the columns the deriver reads.
\<close>

record action_row =
  MovieId :: int
  UserId :: int
  Action :: string

type_synonym action_key = "int \<times> int \<times> string"

definition action_key :: "action_row \<Rightarrow> action_key" where
  "action_key r = (MovieId r, UserId r, Action r)"

text \<open>
  \<^verbatim>\<open>counts = data.groupby(['MovieId', 'UserId', 'Action'])['Action'].count()\<close>
  a series indexed by the keys that occur, in ascending order, holding the number of rows
  with each key.
\<close>

definition counts :: "action_row list \<Rightarrow> (action_key \<times> nat) list" where
  "counts data =
     (let keys = map action_key data
      in map (\<lambda>k. (k, length (filter (\<lambda>k'. k' = k) keys))) (sort (remdups keys)))"

subsection \<open>The nested dictionary \<^verbatim>\<open>agg_data\<close>\<close>

text \<open>
  \<^verbatim>\<open>agg_data\<close> maps a movie to a dictionary that maps a user to a dictionary of counts
  per action. The loop keeps the innermost dictionary in the variable
  \<^verbatim>\<open>user_agg_data\<close>, which it only rebinds when the user is new for the movie, and
  stores that variable into the movie's dictionary in every iteration of the
  \<^verbatim>\<open>else\<close> branch. The dictionaries of counts are therefore objects that may be shared:
  they live in a heap and are referred to by their index. Dictionaries are association
  lists in insertion order. The movie dictionaries are held by value: the variable
  \<^verbatim>\<open>movie_agg_data\<close> is bound afresh in both branches of every iteration and always
  denotes \<^verbatim>\<open>agg_data[i[0]]\<close>.
\<close>

datatype py_error = KeyError | NameError

type_synonym user_dict = "(string \<times> nat) list"
type_synonym ref = nat

record agg_state =
  heap :: "user_dict list"
  agg_data :: "(int \<times> (int \<times> ref) list) list"
  user_agg_data :: "ref option"

definition new_user_agg_data :: user_dict where
  "new_user_agg_data = [(''buy'', 0), (''addToCart'', 0), (''details'', 0)]"

text \<open>\<^verbatim>\<open>agg_data[i[0]][i[1]][i[2]] += counts[i]\<close>\<close>

definition add_count :: "agg_state \<Rightarrow> int \<Rightarrow> int \<Rightarrow> string \<Rightarrow> nat \<Rightarrow> py_error + agg_state" where
  "add_count s movie user action n =
     (case map_of (agg_data s) movie of
        None \<Rightarrow> Inl KeyError
      | Some movie_agg_data \<Rightarrow>
          (case map_of movie_agg_data user of
             None \<Rightarrow> Inl KeyError
           | Some ref \<Rightarrow>
               (case map_of (heap s ! ref) action of
                  None \<Rightarrow> Inl KeyError
                | Some v \<Rightarrow>
                    Inr (s\<lparr>heap := (heap s)[ref := AList.update action (v + n) (heap s ! ref)]\<rparr>))))"

text \<open>
  The body of \<^verbatim>\<open>for i in counts.index\<close>:
  \<^verbatim>\<open>
    if i[0] not in agg_data.keys():
        movie_agg_data = dict()
        user_agg_data = {'buy': 0, 'addToCart': 0, 'details': 0}
        movie_agg_data[i[1]] = user_agg_data
        agg_data[i[0]] = movie_agg_data
    else:
        movie_agg_data = agg_data[i[0]]
        if i[1] not in movie_agg_data.keys():
            user_agg_data = {'buy': 0, 'addToCart': 0, 'details': 0}
        movie_agg_data[i[1]] = user_agg_data
    agg_data[i[0]][i[1]][i[2]] += counts[i]
  \<close>
\<close>

definition agg_step :: "agg_state \<Rightarrow> action_key \<times> nat \<Rightarrow> py_error + agg_state" where
  "agg_step s ic =
     (case ic of ((movie, user, action), n) \<Rightarrow>
        (case map_of (agg_data s) movie of
           None \<Rightarrow>
             (let ref = length (heap s);
                  s = s\<lparr>heap := heap s @ [new_user_agg_data], user_agg_data := Some ref\<rparr>;
                  movie_agg_data = [(user, ref)];
                  s = s\<lparr>agg_data := AList.update movie movie_agg_data (agg_data s)\<rparr>
              in add_count s movie user action n)
         | Some movie_agg_data \<Rightarrow>
             (let s = (if map_of movie_agg_data user = None
                       then s\<lparr>heap := heap s @ [new_user_agg_data],
                              user_agg_data := Some (length (heap s))\<rparr>
                       else s)
              in case user_agg_data s of
                   None \<Rightarrow> Inl NameError
                 | Some ref \<Rightarrow>
                     (let movie_agg_data = AList.update user ref movie_agg_data;
                          s = s\<lparr>agg_data := AList.update movie movie_agg_data (agg_data s)\<rparr>
                      in add_count s movie user action n))))"

fun agg_loop :: "agg_state \<Rightarrow> (action_key \<times> nat) list \<Rightarrow> py_error + agg_state" where
  "agg_loop s [] = Inr s"
| "agg_loop s (ic # rest) =
     (case agg_step s ic of Inl e \<Rightarrow> Inl e | Inr s' \<Rightarrow> agg_loop s' rest)"

subsection \<open>Raw ratings and normalisation\<close>

definition weights :: "(string \<times> nat) list" where
  "weights = [(''buy'', 100), (''addToCart'', 50), (''details'', 15)]"

text \<open>
  \<^verbatim>\<open>
    raw_rating = 0
    for weights_key in weights.keys():
        raw_rating += agg_data[movie_key][user_key][weights_key] * weights[weights_key]
  \<close>
\<close>

fun weigh :: "user_dict \<Rightarrow> (string \<times> nat) list \<Rightarrow> nat \<Rightarrow> py_error + nat" where
  "weigh d [] raw_rating = Inr raw_rating"
| "weigh d ((weights_key, w) # ws) raw_rating =
     (case map_of d weights_key of
        None \<Rightarrow> Inl KeyError
      | Some c \<Rightarrow> weigh d ws (raw_rating + c * w))"

record rating_state =
  raw_ratings :: "(int \<times> int \<times> nat) list"
  max_rating :: nat

text \<open>
  The pairs visited by
  \<^verbatim>\<open>for movie_key in agg_data.keys(): for user_key in agg_data[movie_key].keys()\<close>,
  in that order, each with the reference to its dictionary of counts.
\<close>

definition user_keys :: "(int \<times> (int \<times> ref) list) list \<Rightarrow> (int \<times> int \<times> ref) list" where
  "user_keys agg = concat (map (\<lambda>(movie_key, movie_agg_data).
                      map (\<lambda>(user_key, ref). (movie_key, user_key, ref)) movie_agg_data) agg)"

text \<open>
  \<^verbatim>\<open>
    if raw_rating > max_rating:
        max_rating = raw_rating
    raw_ratings.append([movie_key, user_key, raw_rating])
  \<close>
\<close>

fun rate_loop :: "user_dict list \<Rightarrow> (int \<times> int \<times> ref) list \<Rightarrow> rating_state \<Rightarrow> py_error + rating_state" where
  "rate_loop h [] st = Inr st"
| "rate_loop h ((movie_key, user_key, ref) # rest) st =
     (case weigh (h ! ref) weights 0 of
        Inl e \<Rightarrow> Inl e
      | Inr raw_rating \<Rightarrow>
          rate_loop h rest
            \<lparr>raw_ratings = raw_ratings st @ [(movie_key, user_key, raw_rating)],
             max_rating = (if raw_rating > max_rating st then raw_rating else max_rating st)\<rparr>)"

text \<open>
  \<^verbatim>\<open>ratings['Rating'] = float(10) * ratings['RawRating'] / max_rating\<close> is an elementwise
  division of a column: a zero divisor raises nothing and yields an infinity or NaN in
  each row. Finite values are exact rationals here.
\<close>

datatype np_float = Finite rat | PosInf | NegInf | NaN

definition np_divide :: "rat \<Rightarrow> nat \<Rightarrow> np_float" where
  "np_divide x d =
     (if d = 0 then (if x = 0 then NaN else if 0 < x then PosInf else NegInf)
      else Finite (x / of_nat d))"

record rating_row =
  rating_MovieId :: int
  rating_UserId :: int
  RawRating :: nat
  Rating :: np_float

definition normalize :: "rating_state \<Rightarrow> rating_row list" where
  "normalize st =
     map (\<lambda>(movie_key, user_key, raw_rating).
            \<lparr>rating_MovieId = movie_key, rating_UserId = user_key, RawRating = raw_rating,
             Rating = np_divide (10 * of_nat raw_rating) (max_rating st)\<rparr>)
         (raw_ratings st)"

definition implicit_ratings :: "action_row list \<Rightarrow> py_error + rating_row list" where
  "implicit_ratings data =
     (case agg_loop \<lparr>heap = [], agg_data = [], user_agg_data = None\<rparr> (counts data) of
        Inl e \<Rightarrow> Inl e
      | Inr s \<Rightarrow>
          (case rate_loop (heap s) (user_keys (agg_data s)) \<lparr>raw_ratings = [], max_rating = 0\<rparr> of
             Inl e \<Rightarrow> Inl e
           | Inr st \<Rightarrow> Inr (normalize st)))"

subsection \<open>Auxiliary notions used to state and prove the properties\<close>

text \<open>The set of action types of the weight table.\<close>

definition valid_action :: "string \<Rightarrow> bool" where
  "valid_action a = (a = ''buy'' \<or> a = ''addToCart'' \<or> a = ''details'')"

text \<open>
  The number of rows of the log with a given movie, user and action, the weighted sum of
  these numbers for a pair, and the largest weighted sum of the log (0 for an empty log, as
  \<^verbatim>\<open>max_rating\<close> starts at 0).
\<close>

definition action_count :: "action_row list \<Rightarrow> int \<Rightarrow> int \<Rightarrow> string \<Rightarrow> nat" where
  "action_count data m u a =
     length (filter (\<lambda>r. MovieId r = m \<and> UserId r = u \<and> Action r = a) data)"

definition raw_score :: "action_row list \<Rightarrow> int \<Rightarrow> int \<Rightarrow> nat" where
  "raw_score data m u =
     action_count data m u ''buy'' * 100 + action_count data m u ''addToCart'' * 50
       + action_count data m u ''details'' * 15"

definition max_score :: "action_row list \<Rightarrow> nat" where
  "max_score data = Max (insert 0 ((\<lambda>r. raw_score data (MovieId r) (UserId r)) ` set data))"

definition rated_pair :: "rating_row \<Rightarrow> int \<times> int" where
  "rated_pair row = (rating_MovieId row, rating_UserId row)"

text \<open>The log of the example: two views and one cart-add of movie 1 by user 1.\<close>

definition example_actions :: "action_row list" where
  "example_actions =
     [\<lparr>MovieId = 1, UserId = 1, Action = ''details''\<rparr>,
      \<lparr>MovieId = 1, UserId = 1, Action = ''addToCart''\<rparr>,
      \<lparr>MovieId = 1, UserId = 1, Action = ''details''\<rparr>]"


text \<open>
  The loop invariant of the aggregation, over the part \<open>prev\<close> of the series processed so
  far: the reference a pair is bound to, the dictionary with given counts, the sum of the
  counts of a key, and the invariant itself.
\<close>

definition ref_of :: "agg_state \<Rightarrow> int \<Rightarrow> int \<Rightarrow> ref option" where
  "ref_of s m u = (case map_of (agg_data s) m of None \<Rightarrow> None | Some md \<Rightarrow> map_of md u)"

definition movie_dict :: "agg_state \<Rightarrow> int \<Rightarrow> (int \<times> ref) list" where
  "movie_dict s m = (case map_of (agg_data s) m of None \<Rightarrow> [] | Some md \<Rightarrow> md)"

definition dict3 :: "nat \<Rightarrow> nat \<Rightarrow> nat \<Rightarrow> user_dict" where
  "dict3 b c d = [(''buy'', b), (''addToCart'', c), (''details'', d)]"

definition bump :: "string \<Rightarrow> nat \<Rightarrow> string \<Rightarrow> nat" where
  "bump a n a' = (if a' = a then n else 0)"

definition bumped :: "string \<Rightarrow> nat \<Rightarrow> user_dict \<Rightarrow> user_dict" where
  "bumped a n d = dict3 (the (map_of d ''buy'') + bump a n ''buy'')
                        (the (map_of d ''addToCart'') + bump a n ''addToCart'')
                        (the (map_of d ''details'') + bump a n ''details'')"

definition cnt :: "(action_key \<times> nat) list \<Rightarrow> action_key \<Rightarrow> nat" where
  "cnt prev k = sum_list (map snd (filter (\<lambda>e. fst e = k) prev))"

definition counted :: "(action_key \<times> nat) list \<Rightarrow> int \<Rightarrow> int \<Rightarrow> user_dict" where
  "counted prev m u =
     dict3 (cnt prev (m, u, ''buy'')) (cnt prev (m, u, ''addToCart'')) (cnt prev (m, u, ''details''))"

definition seen :: "(action_key \<times> nat) list \<Rightarrow> int \<Rightarrow> int \<Rightarrow> bool" where
  "seen prev m u = (\<exists>a n. ((m, u, a), n) \<in> set prev)"

definition last_pair :: "(action_key \<times> nat) list \<Rightarrow> int \<times> int" where
  "last_pair prev = (case fst (last prev) of (m, u, a) \<Rightarrow> (m, u))"

definition agg_inv :: "(action_key \<times> nat) list \<Rightarrow> agg_state \<Rightarrow> bool" where
  "agg_inv prev s =
     (distinct (map fst (agg_data s))
      \<and> (\<forall>m. distinct (map fst (movie_dict s m)))
      \<and> (\<forall>m u. ref_of s m u \<noteq> None \<longleftrightarrow> seen prev m u)
      \<and> (\<forall>m u r. ref_of s m u = Some r \<longrightarrow> r < length (heap s) \<and> heap s ! r = counted prev m u)
      \<and> (\<forall>m u m' u' r. ref_of s m u = Some r \<and> ref_of s m' u' = Some r \<longrightarrow> m = m' \<and> u = u')
      \<and> (prev \<noteq> [] \<longrightarrow> user_agg_data s = ref_of s (fst (last_pair prev)) (snd (last_pair prev))))"

section \<open>Properties of the RFM pipeline\<close>

lemma dt_date_consts:
  "dt_date 2011 6 1 = 734289" "dt_date 2011 5 31 = 734288"
  "dt_date 2011 11 30 = 734471" "dt_date 2011 12 1 = 734472"
  by (simp_all add: dt_date_def days_before_year_def days_before_month_def is_leap_def)

lemma ts_date_less_iff: "ts_date x < d \<longleftrightarrow> x < midnight d"
  unfolding ts_date_def midnight_def ns_per_day_def epoch_ordinal_def by auto

lemma outlier_filter_set:
  "set (outlier_filter data) =
     {r \<in> set data. 0 < Quantity r \<and> Quantity r < 30 \<and> 0 < UnitPrice r \<and> UnitPrice r < 30}"
  by (auto simp: outlier_filter_def)

lemma date_window_set:
  "set (date_window data) = {r \<in> set data. ts_date (InvoiceDate r) < dt_date 2011 12 1}"
  by (auto simp: date_window_def ts_date_less_iff)

lemma get_period_range: "get_period x = 1 \<or> get_period x = 2"
  by (simp add: get_period_def)

lemma rfm_aggregator_keys:
  "map (\<lambda>x. (rfm_CustomerID x, rfm_HalfYear x, rfm_NextHalfYear x)) (rfm_aggregator cd)
     = sort (remdups (map group_key cd))"
  by (simp add: rfm_aggregator_def groupby_agg_def aggregate_def to_rfm_def Let_def o_def)

lemma rfm_aggregator_row:
  assumes "x \<in> set (rfm_aggregator cd)"
  obtains k where "k \<in> set (map group_key cd)" "x = to_rfm (aggregate cd k)"
  using assms by (auto simp: rfm_aggregator_def groupby_agg_def)

lemma add_period_columns_sel:
  "InvoiceNo (add_period_columns r) = InvoiceNo r"
  "Quantity (add_period_columns r) = Quantity r"
  "InvoiceDate (add_period_columns r) = InvoiceDate r"
  "UnitPrice (add_period_columns r) = UnitPrice r"
  "CustomerID (add_period_columns r) = CustomerID r"
  "HalfYear (add_period_columns r) = get_period (InvoiceDate r)"
  "NextHalfYear (add_period_columns r) = get_period (InvoiceDate r) + 1"
  "Amount (add_period_columns r) = of_int (Quantity r) * UnitPrice r"
  by (simp_all add: add_period_columns_def Let_def)

lemma group_rows_assign_periods:
  "group_rows (assign_periods xs) (c, h, h + 1) =
     map add_period_columns (filter (in_group c h) xs)"
proof -
  have "(\<lambda>r. group_key r = (c, h, h + 1)) \<circ> add_period_columns = in_group c h"
    by (auto simp: fun_eq_iff group_key_def add_period_columns_sel in_group_def)
  then show ?thesis
    by (simp add: group_rows_def assign_periods_def filter_map)
qed

lemma group_key_assign_periods:
  assumes "k \<in> set (map group_key (assign_periods xs))"
  shows "\<exists>c h. k = (c, h, h + 1) \<and> (h = 1 \<or> h = 2) \<and> filter (in_group c h) xs \<noteq> []"
proof -
  from assms obtain r where r: "r \<in> set xs" and k: "k = group_key (add_period_columns r)"
    by (auto simp: assign_periods_def)
  let ?c = "CustomerID r" and ?h = "get_period (InvoiceDate r)"
  have "k = (?c, ?h, ?h + 1)"
    by (simp add: k group_key_def add_period_columns_sel)
  moreover have "?h = 1 \<or> ?h = 2" by (rule get_period_range)
  moreover have "r \<in> set (filter (in_group ?c ?h) xs)"
    using r by (simp add: in_group_def)
  then have "filter (in_group ?c ?h) xs \<noteq> []" by (metis empty_iff empty_set)
  ultimately show ?thesis by blast
qed

lemma rfm_aggregator_assign_periods_row:
  assumes "x \<in> set (rfm_aggregator (assign_periods xs))"
  obtains c h where
    "h = 1 \<or> h = 2" "filter (in_group c h) xs \<noteq> []"
    "x = to_rfm (aggregate (assign_periods xs) (c, h, h + 1))"
proof -
  from assms obtain k where k: "k \<in> set (map group_key (assign_periods xs))"
    and x: "x = to_rfm (aggregate (assign_periods xs) k)"
    by (rule rfm_aggregator_row)
  from group_key_assign_periods[OF k] obtain c h where
    "k = (c, h, h + 1)" "h = 1 \<or> h = 2" "filter (in_group c h) xs \<noteq> []" by blast
  with x that show thesis by simp
qed

lemma rfm_row_fields:
  assumes "x = to_rfm (aggregate (assign_periods xs) (c, h, h + 1))"
  shows "rfm_CustomerID x = c" "rfm_HalfYear x = h" "rfm_NextHalfYear x = h + 1"
    "F x = nunique (map InvoiceNo (filter (in_group c h) xs))"
    "M x = (\<Sum>r\<leftarrow>filter (in_group c h) xs. of_int (Quantity r) * UnitPrice r)"
    "R x = (if h = 1 then dt_date 2011 5 31 else dt_date 2011 11 30)
             - ts_date (Max (set (map InvoiceDate (filter (in_group c h) xs))))"
  using assms
  by (simp_all add: to_rfm_def aggregate_def recency_def Let_def group_rows_assign_periods o_def
                add_period_columns_sel image_image del: set_filter)

lemma sum_list_pos_rat:
  fixes f :: "'a \<Rightarrow> rat"
  shows "xs \<noteq> [] \<Longrightarrow> (\<And>x. x \<in> set xs \<Longrightarrow> 0 < f x) \<Longrightarrow> 0 < sum_list (map f xs)"
proof (induction xs)
  case Nil
  then show ?case by simp
next
  case (Cons a xs)
  then show ?case
    by (cases "xs = []") (auto intro: add_pos_pos)
qed

lemma ts_date_midnight: "ts_date (midnight d) = d"
  by (simp add: ts_date_def midnight_def ns_per_day_def)

lemma dt_date_example: "dt_date 2011 3 1 = 734197" "dt_date 2011 7 10 = 734328"
  by (simp_all add: dt_date_def days_before_year_def days_before_month_def is_leap_def)

lemma clean_data_example:
  "clean_data (example_sales c i1 i2) =
     [\<lparr>InvoiceNo = i1, Quantity = 2, InvoiceDate = midnight 734197,
       UnitPrice = 5, CustomerID = c, HalfYear = 1, NextHalfYear = 2, Amount = 10\<rparr>,
      \<lparr>InvoiceNo = i2, Quantity = 1, InvoiceDate = midnight 734328,
       UnitPrice = 20, CustomerID = c, HalfYear = 2, NextHalfYear = 3, Amount = 20\<rparr>]"
  by (simp add: clean_data_def example_sales_def drop_missing_customers_def to_numeric_def
        date_window_def outlier_filter_def assign_periods_def add_period_columns_def Let_def
        get_period_def ts_date_midnight dt_date_consts dt_date_example
        ts_date_less_iff[symmetric])

lemma rfm_data_example:
  "rfm_data (example_sales c i1 i2) =
     [\<lparr>rfm_CustomerID = c, rfm_HalfYear = 1, rfm_NextHalfYear = 2, R = 91, F = 1, M = 10\<rparr>,
      \<lparr>rfm_CustomerID = c, rfm_HalfYear = 2, rfm_NextHalfYear = 3, R = 143, F = 1, M = 20\<rparr>]"
  by (simp add: rfm_data_def clean_data_example rfm_aggregator_def groupby_agg_def
        aggregate_def group_rows_def group_key_def nunique_def to_rfm_def recency_def Let_def
        ts_date_midnight dt_date_consts)

lemma rfm_data_final_example:
  "rfm_data_final (example_sales c i1 i2) =
     [\<lparr>lab_R = 91, lab_F = 1, lab_M = 10, lab_M_Next = Some 20\<rparr>]"
  by (simp add: rfm_data_final_def rfm_data_example label_joiner_def merge_left_def
        merge_row_def join_match_def joined_def unmatched_def select_columns_def)

lemma label_joiner_labeled_merged:
  "label_joiner rfm = map select_columns (labeled_merged rfm)"
  by (simp add: label_joiner_def labeled_merged_def filter_map o_def select_columns_def)

lemma filter_merge_row:
  "filter (\<lambda>x. M_Next x \<noteq> None) (merge_row right l) = map (joined l) (filter (join_match l) right)"
  by (cases "filter (join_match l) right")
     (simp_all add: merge_row_def unmatched_def joined_def filter_map o_def)

lemma labeled_merged_inner_join:
  "labeled_merged rfm = concat (map (\<lambda>l. map (joined l) (filter (join_match l) rfm)) rfm)"
  by (simp only: labeled_merged_def merge_left_def filter_concat map_map o_def filter_merge_row)

lemma distinct_map_coarser:
  "distinct (map f xs) \<Longrightarrow> (\<And>x y. x \<in> set xs \<Longrightarrow> y \<in> set xs \<Longrightarrow> g x = g y \<Longrightarrow> f x = f y)
     \<Longrightarrow> distinct (map g xs)"
  by (induction xs) (auto simp: image_iff)

lemma filter_key_le_one:
  "distinct (map f xs) \<Longrightarrow> length (filter (\<lambda>x. f x = v) xs) \<le> Suc 0"
  by (induction xs) (auto simp: image_iff filter_empty_conv)

lemma distinct_concat_keyed:
  assumes "distinct (map k ls)"
    and "\<And>l. l \<in> set ls \<Longrightarrow> length (g l) \<le> Suc 0"
    and "\<And>l x. l \<in> set ls \<Longrightarrow> x \<in> set (g l) \<Longrightarrow> k' x = k l"
  shows "distinct (map k' (concat (map g ls)))"
  using assms
proof (induction ls)
  case Nil
  then show ?case by simp
next
  case (Cons a ls)
  have "distinct (map k' (g a))"
    using Cons.prems(2)[of a] by (cases "g a") auto
  moreover have "distinct (map k' (concat (map g ls)))"
    using Cons by auto
  moreover have "k' x \<noteq> k' y" if "x \<in> set (g a)" "l \<in> set ls" "y \<in> set (g l)" for x y l
  proof -
    have "k' x = k a" "k' y = k l" using that Cons.prems(3) by auto
    moreover have "k a \<noteq> k l" using Cons.prems(1) that(2) by auto
    ultimately show ?thesis by simp
  qed
  ultimately show ?case by (auto simp: image_iff) 
qed

lemma rfm_rows_next:
  assumes "x \<in> set (rfm_aggregator (assign_periods xs))"
  shows "(rfm_HalfYear x = 1 \<or> rfm_HalfYear x = 2) \<and> rfm_NextHalfYear x = rfm_HalfYear x + 1"
proof -
  from assms obtain c h where h: "h = 1 \<or> h = 2"
    and x: "x = to_rfm (aggregate (assign_periods xs) (c, h, h + 1))"
    by (rule rfm_aggregator_assign_periods_row)
  from rfm_row_fields(2,3)[OF x] h show ?thesis by simp
qed

lemma rfm_keys_distinct:
  "distinct (map rfm_key (rfm_aggregator (assign_periods xs)))"
proof (rule distinct_map_coarser)
  show "distinct (map (\<lambda>x. (rfm_CustomerID x, rfm_HalfYear x, rfm_NextHalfYear x))
                   (rfm_aggregator (assign_periods xs)))"
    by (simp add: rfm_aggregator_keys)
next
  fix x y
  assume "x \<in> set (rfm_aggregator (assign_periods xs))"
    "y \<in> set (rfm_aggregator (assign_periods xs))" "rfm_key x = rfm_key y"
  then show "(rfm_CustomerID x, rfm_HalfYear x, rfm_NextHalfYear x)
           = (rfm_CustomerID y, rfm_HalfYear y, rfm_NextHalfYear y)"
    using rfm_rows_next[of x xs] rfm_rows_next[of y xs] by (simp add: rfm_key_def)
qed

lemma join_match_key:
  "join_match l r \<longleftrightarrow> rfm_key r = (rfm_CustomerID l, rfm_NextHalfYear l)"
  by (auto simp: join_match_def rfm_key_def)

lemma matches_le_one:
  "distinct (map rfm_key rfm) \<Longrightarrow> length (filter (join_match l) rfm) \<le> Suc 0"
  unfolding join_match_key by (rule filter_key_le_one)

lemma merged_key_joined: "merged_key (joined l r) = rfm_key l"
  by (simp add: merged_key_def joined_def rfm_key_def)

lemma labeled_merged_keys_distinct:
  assumes "distinct (map rfm_key rfm)"
  shows "distinct (map merged_key (labeled_merged rfm))"
  unfolding labeled_merged_inner_join
  by (rule distinct_concat_keyed[where k = rfm_key])
     (use assms in \<open>auto simp: matches_le_one merged_key_joined\<close>)

lemma labeled_merged_row:
  assumes "x \<in> set (labeled_merged rfm)"
  obtains l r where "l \<in> set rfm" "r \<in> set rfm" "join_match l r" "x = joined l r"
  using assms by (auto simp: labeled_merged_inner_join)


lemma rfm_data_rows:
  "rfm_data raw = rfm_aggregator (assign_periods (outlier_filter (date_window (drop_missing_customers raw))))"
  by (simp add: rfm_data_def clean_data_def)

lemma rfm_data_keys_distinct: "distinct (map rfm_key (rfm_data raw))"
  by (simp only: rfm_data_rows rfm_keys_distinct)

lemma rfm_data_periods:
  "x \<in> set (rfm_data raw) \<Longrightarrow>
     (rfm_HalfYear x = 1 \<or> rfm_HalfYear x = 2) \<and> rfm_NextHalfYear x = rfm_HalfYear x + 1"
  unfolding rfm_data_rows by (rule rfm_rows_next)

lemma distinct_map_eq:
  "distinct (map f xs) \<Longrightarrow> x \<in> set xs \<Longrightarrow> y \<in> set xs \<Longrightarrow> f x = f y \<Longrightarrow> x = y"
  by (meson distinct_map inj_onD)

lemma rfm_data_example_single:
  "rfm_data example_single_period =
     [\<lparr>rfm_CustomerID = 1, rfm_HalfYear = 1, rfm_NextHalfYear = 2, R = 91, F = 1, M = 10\<rparr>,
      \<lparr>rfm_CustomerID = 1, rfm_HalfYear = 2, rfm_NextHalfYear = 3, R = 143, F = 1, M = 20\<rparr>,
      \<lparr>rfm_CustomerID = 2, rfm_HalfYear = 1, rfm_NextHalfYear = 2, R = 91, F = 1, M = 12\<rparr>]"
  by (simp add: example_single_period_def example_sales_def
        rfm_data_def clean_data_def drop_missing_customers_def to_numeric_def
        date_window_def outlier_filter_def assign_periods_def add_period_columns_def Let_def
        get_period_def ts_date_midnight dt_date_consts dt_date_example
        ts_date_less_iff[symmetric]
        rfm_aggregator_def groupby_agg_def
        aggregate_def group_rows_def group_key_def nunique_def to_rfm_def recency_def)

lemma labeled_merged_example_single:
  "labeled_merged (rfm_data example_single_period) =
     [joined \<lparr>rfm_CustomerID = 1, rfm_HalfYear = 1, rfm_NextHalfYear = 2, R = 91, F = 1, M = 10\<rparr>
             \<lparr>rfm_CustomerID = 1, rfm_HalfYear = 2, rfm_NextHalfYear = 3, R = 143, F = 1, M = 20\<rparr>]"
  by (simp add: rfm_data_example_single labeled_merged_inner_join join_match_def)


subsection \<open>The float64 rounding\<close>

text \<open>
  The exponent is that of the leading bit, and \<open>f64\<close> yields a multiple of the spacing at
  that exponent which differs from its argument by at most half the spacing.
\<close>

lemma pow2_powi: "pow2 e = 2 powi e"
  by (simp add: pow2_def power_int_def inverse_eq_divide power_one_over)

lemma bitlen_powi_bounds:
  assumes "0 < p"
  shows "2 powi (bitlen p - 1) \<le> rat_of_int p" "rat_of_int p < 2 powi (bitlen p)"
proof -
  from bitlen_bounds[OF assms] have 1: "2 ^ nat (bitlen p - 1) \<le> p" and 2: "p < 2 ^ nat (bitlen p)"
    by simp_all
  have pos: "1 \<le> bitlen p"
  proof (rule ccontr)
    assume "\<not> 1 \<le> bitlen p"
    then have "nat (bitlen p) = 0" by simp
    with 2 assms show False by simp
  qed
  from 1 have "rat_of_int (2 ^ nat (bitlen p - 1)) \<le> rat_of_int p" by (simp only: of_int_le_iff)
  then show "2 powi (bitlen p - 1) \<le> rat_of_int p" using pos by (simp add: power_int_def)
  from 2 have "rat_of_int p < rat_of_int (2 ^ nat (bitlen p))" by (simp only: of_int_less_iff)
  then show "rat_of_int p < 2 powi (bitlen p)" using pos by (simp add: power_int_def)
qed

lemma exponent_bounds:
  assumes "x \<noteq> 0"
  shows "pow2 (exponent x) \<le> \<bar>x\<bar> \<and> \<bar>x\<bar> < pow2 (exponent x + 1)"
proof -
  obtain p q where pq: "quotient_of \<bar>x\<bar> = (p, q)" by (cases "quotient_of \<bar>x\<bar>")
  then have q: "0 < q" by (rule quotient_of_denom_pos)
  from pq have x: "\<bar>x\<bar> = of_int p / of_int q" by (rule quotient_of_div)
  have "0 < \<bar>x\<bar>" using assms by simp
  with x q have p: "0 < p" by (simp add: zero_less_divide_iff)
  let ?P = "rat_of_int p" and ?Q = "rat_of_int q"
  define d where "d = bitlen p - bitlen q"
  note P = bitlen_powi_bounds[OF p] and Q = bitlen_powi_bounds[OF q]
  have Qpos: "0 < ?Q" using q by simp
  have "2 powi (d - 1) * ?Q < 2 powi (d - 1) * 2 powi (bitlen q)"
    using Q(2) by (simp add: zero_less_power_int)
  also have "\<dots> = 2 powi (bitlen p - 1)"
    by (simp add: d_def power_int_add[symmetric])
  also have "\<dots> \<le> ?P" by (rule P(1))
  finally have lo: "2 powi (d - 1) < \<bar>x\<bar>" using Qpos by (simp add: x pos_less_divide_eq)
  have "?P < 2 powi (bitlen p)" by (rule P(2))
  also have "\<dots> = 2 powi (d + 1) * 2 powi (bitlen q - 1)"
    by (simp add: d_def power_int_add[symmetric])
  also have "\<dots> \<le> 2 powi (d + 1) * ?Q"
    using Q(1) by (simp add: zero_less_power_int)
  finally have hi: "\<bar>x\<bar> < 2 powi (d + 1)" using Qpos by (simp add: x pos_divide_less_eq)
  have e: "exponent x = (if 2 powi d \<le> \<bar>x\<bar> then d else d - 1)"
    by (simp add: exponent_def pq Let_def d_def pow2_powi)
  show ?thesis
    using lo hi by (auto simp: e pow2_powi)
qed


lemma round_half_even_error: "\<bar>of_int (round_half_even y) - y\<bar> \<le> 1 / 2"
proof -
  define n where "n = \<lfloor>y\<rfloor>"
  have "of_int n \<le> y" "y < of_int n + 1" by (simp_all add: n_def) linarith
  then show ?thesis
    by (auto simp: round_half_even_def Let_def n_def[symmetric] abs_le_iff)
qed

lemma pow2_pos: "0 < pow2 e"
  by (simp add: pow2_def)

lemma f64_nearest:
  assumes "x \<noteq> 0"
  shows "\<exists>m. f64 x = of_int m * pow2 (max (exponent x) (- 1022) - 52)
           \<and> \<bar>f64 x - x\<bar> \<le> pow2 (max (exponent x) (- 1022) - 52) / 2"
proof -
  define ulp where "ulp = pow2 (max (exponent x) (- 1022) - 52)"
  have pos: "0 < ulp" by (simp add: ulp_def pow2_pos)
  define m where "m = round_half_even (x / ulp)"
  have f: "f64 x = of_int m * ulp" using assms by (simp add: f64_def Let_def ulp_def m_def)
  have "\<bar>of_int m - x / ulp\<bar> \<le> 1 / 2" unfolding m_def by (rule round_half_even_error)
  then have "\<bar>of_int m - x / ulp\<bar> * ulp \<le> 1 / 2 * ulp"
    using pos by (simp add: mult_right_mono)
  moreover have "\<bar>of_int m - x / ulp\<bar> * ulp = \<bar>of_int m * ulp - x\<bar>"
  proof -
    have "\<bar>of_int m - x / ulp\<bar> * ulp = \<bar>(of_int m - x / ulp) * ulp\<bar>"
      using pos by (simp add: abs_mult)
    also have "(of_int m - x / ulp) * ulp = of_int m * ulp - x"
      using pos by (simp add: left_diff_distrib)
    finally show ?thesis .
  qed
  ultimately have "\<bar>f64 x - x\<bar> \<le> ulp / 2" by (simp add: f)
  with f show ?thesis unfolding ulp_def by blast
qed

lemma round_half_even_int: "round_half_even (of_int m) = m"
  by (simp add: round_half_even_def)

lemma exponent_int:
  assumes "\<bar>n\<bar> < 2 ^ 53"
  shows "exponent (of_int n) \<le> 52"
proof -
  have "\<bar>rat_of_int n\<bar> = rat_of_int \<bar>n\<bar>" by simp
  then have q: "quotient_of \<bar>rat_of_int n\<bar> = (\<bar>n\<bar>, 1)"
    by (simp only: quotient_of_rat_of_int)
  define d where "d = bitlen \<bar>n\<bar> - bitlen 1"
  have "bitlen \<bar>n\<bar> \<le> 53" using assms by (simp add: bitlen_le_iff_power)
  moreover have "bitlen 1 = 1" by (simp add: bitlen_alt_def)
  ultimately have d: "d \<le> 52" by (simp add: d_def)
  have "exponent (of_int n) = (if pow2 d \<le> \<bar>rat_of_int n\<bar> then d else d - 1)"
    by (simp only: exponent_def q Let_def case_prod_conv d_def)
  with d show ?thesis by (simp split: if_splits)
qed

lemma f64_int:
  assumes "\<bar>n\<bar> < 2 ^ 53"
  shows "f64 (of_int n) = of_int n"
proof (cases "n = 0")
  case True
  then show ?thesis by (simp add: f64_def)
next
  case False
  define e where "e = max (exponent (rat_of_int n)) (- 1022)"
  have e: "e \<le> 52" using exponent_int[OF assms] by (simp add: e_def)
  define k where "k = nat (52 - e)"
  have ulp: "pow2 (e - 52) = 1 / 2 ^ k"
  proof (cases "e = 52")
    case True then show ?thesis by (simp add: pow2_def k_def)
  next
    case False with e have "e - 52 < 0" by simp
    then show ?thesis by (simp add: pow2_def k_def)
  qed
  have "rat_of_int n / pow2 (e - 52) = of_int (n * 2 ^ k)" by (simp add: ulp)
  then have "round_half_even (rat_of_int n / pow2 (e - 52)) = n * 2 ^ k"
    by (simp only: round_half_even_int)
  then show ?thesis using False by (simp add: f64_def Let_def e_def[symmetric] ulp)
qed

lemma f64_sum_int_acc:
  assumes "\<bar>a\<bar> + sum_list (map abs ns) < 2 ^ 53"
  shows "foldl (\<lambda>sumx val. f64 (sumx + val)) (of_int a) (map of_int ns) = of_int (a + sum_list ns)"
  using assms
proof (induction ns arbitrary: a)
  case Nil
  then show ?case by simp
next
  case (Cons n ns)
  have nn: "0 \<le> sum_list (map abs ns)" by (rule sum_list_nonneg) auto
  have "\<bar>a + n\<bar> < 2 ^ 53" using Cons.prems nn by simp
  then have "f64 (of_int a + of_int n) = of_int (a + n)" using f64_int[of "a + n"] by simp
  moreover have "\<bar>a + n\<bar> + sum_list (map abs ns) < 2 ^ 53" using Cons.prems by simp
  ultimately show ?case using Cons.IH[of "a + n"] by (simp add: add.assoc)
qed

lemma f64_sum_int:
  "sum_list (map abs ns) < 2 ^ 53 \<Longrightarrow> f64_sum (map of_int ns) = of_int (sum_list ns)"
  using f64_sum_int_acc[of 0 ns] by (simp add: f64_sum_def)

lemma add_period_columns_f64_sel:
  "InvoiceNo (add_period_columns_f64 r) = InvoiceNo r"
  "Quantity (add_period_columns_f64 r) = Quantity r"
  "InvoiceDate (add_period_columns_f64 r) = InvoiceDate r"
  "UnitPrice (add_period_columns_f64 r) = UnitPrice r"
  "CustomerID (add_period_columns_f64 r) = CustomerID r"
  "HalfYear (add_period_columns_f64 r) = get_period (InvoiceDate r)"
  "NextHalfYear (add_period_columns_f64 r) = get_period (InvoiceDate r) + 1"
  "Amount (add_period_columns_f64 r) = f64_amount r"
  by (simp_all add: add_period_columns_f64_def add_period_columns_sel f64_amount_def)

lemma group_key_f64: "group_key (add_period_columns_f64 r) = group_key (add_period_columns r)"
  by (simp add: group_key_def add_period_columns_f64_sel add_period_columns_sel)

lemma keys_f64: "map group_key (assign_periods_f64 data) = map group_key (assign_periods data)"
  by (simp add: assign_periods_f64_def assign_periods_def group_key_f64)

lemma group_rows_assign_periods_f64:
  "group_rows (assign_periods_f64 data) (c, h, h + 1) =
     map add_period_columns_f64 (filter (in_group c h) data)"
proof -
  have "(\<lambda>r. group_key r = (c, h, h + 1)) \<circ> add_period_columns_f64 = in_group c h"
    by (auto simp: fun_eq_iff group_key_def add_period_columns_f64_sel in_group_def)
  then show ?thesis
    by (simp add: group_rows_def assign_periods_f64_def filter_map)
qed

lemma rfm_aggregator_f64_row:
  assumes "x \<in> set (rfm_aggregator_f64 (assign_periods_f64 data))"
  obtains c h where "filter (in_group c h) data \<noteq> []"
    "x = to_rfm (aggregate_f64 (assign_periods_f64 data) (c, h, h + 1))"
proof -
  from assms obtain k where k: "k \<in> set (map group_key (assign_periods data))"
    and x: "x = to_rfm (aggregate_f64 (assign_periods_f64 data) k)"
    by (auto simp: rfm_aggregator_f64_def keys_f64[symmetric])
  from group_key_assign_periods[OF k] obtain c h where
    "k = (c, h, h + 1)" "filter (in_group c h) data \<noteq> []" by blast
  with x that show thesis by simp
qed

lemma rfm_row_fields_f64:
  assumes "x = to_rfm (aggregate_f64 (assign_periods_f64 data) (c, h, h + 1))"
  shows "rfm_CustomerID x = c" "rfm_HalfYear x = h"
    "F x = nunique (map InvoiceNo (filter (in_group c h) data))"
    "M x = f64_sum (map f64_amount (filter (in_group c h) data))"
  unfolding assms
  by (simp_all add: to_rfm_def aggregate_f64_def aggregate_def Let_def
        group_rows_assign_periods_f64 o_def add_period_columns_f64_sel)

lemma abs_le_sum_list_abs:
  fixes f :: "'a \<Rightarrow> rat"
  shows "x \<in> set xs \<Longrightarrow> \<bar>f x\<bar> \<le> (\<Sum>y\<leftarrow>xs. \<bar>f y\<bar>)"
proof (induction xs)
  case Nil
  then show ?case by simp
next
  case (Cons a xs)
  have "0 \<le> (\<Sum>y\<leftarrow>xs. \<bar>f y\<bar>)" by (rule sum_list_nonneg) auto
  with Cons show ?case by auto
qed

lemma f64_sum_exact:
  assumes int: "\<forall>r \<in> set g. \<exists>p. UnitPrice r = of_int p"
    and bound: "(\<Sum>r\<leftarrow>g. \<bar>exact_amount r\<bar>) < 2 ^ 53"
  shows "f64_sum (map f64_amount g) = (\<Sum>r\<leftarrow>g. exact_amount r)"
proof -
  define n :: "int sale \<Rightarrow> int" where "n = (\<lambda>r. Quantity r * \<lfloor>UnitPrice r\<rfloor>)"
  have ex: "exact_amount r = of_int (n r)" if "r \<in> set g" for r
  proof -
    from int that obtain p where "UnitPrice r = of_int p" by blast
    then show ?thesis by (simp add: exact_amount_def n_def)
  qed
  have small: "\<bar>n r\<bar> < 2 ^ 53" if "r \<in> set g" for r
  proof -
    have "\<bar>exact_amount r\<bar> \<le> (\<Sum>y\<leftarrow>g. \<bar>exact_amount y\<bar>)"
      using that by (rule abs_le_sum_list_abs)
    with bound have "\<bar>rat_of_int (n r)\<bar> < 2 ^ 53" by (simp add: ex[OF that])
    then have "rat_of_int \<bar>n r\<bar> < rat_of_int (2 ^ 53)" by simp
    then show ?thesis by (simp only: of_int_less_iff)
  qed
  have amt: "f64_amount r = of_int (n r)" if "r \<in> set g" for r
    using f64_int[OF small[OF that]] ex[OF that] by (simp add: f64_amount_def exact_amount_def)
  have 1: "map f64_amount g = map of_int (map n g)" using amt by simp
  have 2: "map exact_amount g = map of_int (map n g)" using ex by simp
  have "map (\<lambda>r. \<bar>exact_amount r\<bar>) g = map of_int (map abs (map n g))"
    using ex by simp
  then have "(\<Sum>r\<leftarrow>g. \<bar>exact_amount r\<bar>) = rat_of_int (sum_list (map abs (map n g)))"
    by (simp only: sum_list_of_int)
  with bound have "rat_of_int (sum_list (map abs (map n g))) < rat_of_int (2 ^ 53)" by simp
  then have "sum_list (map abs (map n g)) < 2 ^ 53" by (simp only: of_int_less_iff)
  then have "f64_sum (map of_int (map n g)) = of_int (sum_list (map n g))" by (rule f64_sum_int)
  also have "\<dots> = sum_list (map of_int (map n g))" by (simp only: sum_list_of_int)
  finally show ?thesis by (simp only: 1 2)
qed

lemma f64_tenth: "f64 (1 / 10) = 3602879701896397 / 36028797018963968"
  by code_simp

lemma f64_fifth: "f64 (1 / 5) = 3602879701896397 / 18014398509481984"
  by code_simp

lemma f64_tenth_plus_fifth:
  "f64 (10808639105689191 / 36028797018963968) = 1351079888211149 / 4503599627370496"
  by code_simp

lemma f64_idem_tenth:
  "f64 (3602879701896397 / 36028797018963968) = 3602879701896397 / 36028797018963968"
  by code_simp

lemma f64_idem_fifth:
  "f64 (3602879701896397 / 18014398509481984) = 3602879701896397 / 18014398509481984"
  by code_simp

lemma rounding_example_rows:
  "rfm_aggregator_f64 (assign_periods_f64 (outlier_filter (date_window rounding_example))) =
     [\<lparr>rfm_CustomerID = 1, rfm_HalfYear = 1, rfm_NextHalfYear = 2, R = 91, F = 2,
       M = 1351079888211149 / 4503599627370496\<rparr>]"
  by (simp add: rounding_example_def f64_tenth f64_fifth date_window_def outlier_filter_def
        assign_periods_f64_def add_period_columns_f64_def add_period_columns_def Let_def
        get_period_def ts_date_midnight dt_date_consts dt_date_example
        ts_date_less_iff[symmetric] rfm_aggregator_f64_def aggregate_f64_def
        aggregate_def group_rows_def group_key_def nunique_def to_rfm_def recency_def
        f64_sum_def f64_idem_tenth f64_idem_fifth f64_tenth_plus_fifth)

lemma sales_example_clean:
  "outlier_filter (date_window (drop_missing_customers (example_sales 1 ''536365'' ''559001'')))
     = [\<lparr>InvoiceNo = ''536365'', Quantity = 2, InvoiceDate = midnight 734197,
         UnitPrice = 5, CustomerID = 1\<rparr>,
        \<lparr>InvoiceNo = ''559001'', Quantity = 1, InvoiceDate = midnight 734328,
         UnitPrice = 20, CustomerID = 1\<rparr>]"
  by (simp add: example_sales_def drop_missing_customers_def to_numeric_def
        date_window_def outlier_filter_def ts_date_midnight dt_date_consts dt_date_example
        ts_date_less_iff[symmetric])

lemma f64_small_ints: "f64 10 = 10" "f64 20 = 20"
  using f64_int[of 10] f64_int[of 20] by simp_all

lemma sales_example_f64:
  "rfm_aggregator_f64 (assign_periods_f64 (outlier_filter (date_window
       (drop_missing_customers (example_sales 1 ''536365'' ''559001''))))) =
     [\<lparr>rfm_CustomerID = 1, rfm_HalfYear = 1, rfm_NextHalfYear = 2, R = 91, F = 1, M = 10\<rparr>,
      \<lparr>rfm_CustomerID = 1, rfm_HalfYear = 2, rfm_NextHalfYear = 3, R = 143, F = 1, M = 20\<rparr>]"
  by (simp add: sales_example_clean
        assign_periods_f64_def add_period_columns_f64_def add_period_columns_def Let_def
        get_period_def ts_date_midnight dt_date_consts rfm_aggregator_f64_def aggregate_f64_def
        aggregate_def group_rows_def group_key_def nunique_def to_rfm_def recency_def
        f64_sum_def f64_small_ints)

subsection \<open>Period Assigner\<close>

text \<open>
  Claim C7. The Period Assigner returns period 1 for every timestamp whose date is strictly
  before 2011-06-01 and period 2 for every other timestamp; a timestamp exactly at the
  boundary (midnight of 2011-06-01) falls into period 2; and in every row of the table with
  the period columns, \<^verbatim>\<open>NextHalfYear\<close> equals \<^verbatim>\<open>HalfYear\<close> plus one.
\<close>

theorem get_period_cutoff:
  "(ts_date x < dt_date 2011 6 1 \<longrightarrow> get_period x = 1)
   \<and> (dt_date 2011 6 1 \<le> ts_date x \<longrightarrow> get_period x = 2)
   \<and> (get_period x = 1 \<longleftrightarrow> x < midnight (dt_date 2011 6 1))
   \<and> get_period (midnight (dt_date 2011 6 1)) = 2
   \<and> (\<forall>r \<in> set (assign_periods data).
         HalfYear r = get_period (InvoiceDate r) \<and> NextHalfYear r = HalfYear r + 1)"
  by (auto simp: get_period_def ts_date_less_iff[symmetric] ts_date_midnight
                 assign_periods_def add_period_columns_sel)

theorem get_period_cutoff_witness:
  "ts_date (midnight (dt_date 2011 5 31)) < dt_date 2011 6 1
   \<and> get_period (midnight (dt_date 2011 5 31)) = 1
   \<and> get_period (midnight (dt_date 2011 6 1)) = 2"
  using get_period_cutoff [of "midnight (dt_date 2011 5 31)" "[]"]
  by (simp add: ts_date_midnight dt_date_consts)

subsection \<open>RFM Aggregator\<close>

text \<open>
  Claim C8, as stated: for every group, \<^verbatim>\<open>M\<close> equals the exact sum of quantity times
  unit price over the rows of the group. For two rows of one group with quantity 1 and the
  float64 prices of 0.1 and 0.2 the aggregate holds 0.30000000000000004 (the float64 value
  \<open>1351079888211149 / 2 ^ 52\<close>), which is not the sum of the two amounts.
\<close>

theorem rfm_monetary_exact_counterexample:
  "\<lparr>rfm_CustomerID = 1, rfm_HalfYear = 1, rfm_NextHalfYear = 2, R = 91, F = 2,
     M = 1351079888211149 / 4503599627370496\<rparr>
     \<in> set (rfm_aggregator_f64 (assign_periods_f64
                (outlier_filter (date_window rounding_example))))
   \<and> M \<lparr>rfm_CustomerID = 1, rfm_HalfYear = 1, rfm_NextHalfYear = 2, R = 91, F = 2,
          M = 1351079888211149 / 4503599627370496\<rparr>
       \<noteq> sum_list (map exact_amount
            (filter (in_group 1 1) (outlier_filter (date_window rounding_example))))"
proof -
  have "sum_list (map exact_amount
            (filter (in_group 1 1) (outlier_filter (date_window rounding_example))))
          = 10808639105689191 / 36028797018963968"
    by (simp add: rounding_example_def f64_tenth f64_fifth date_window_def outlier_filter_def
          in_group_def exact_amount_def get_period_def ts_date_midnight dt_date_consts
          dt_date_example ts_date_less_iff[symmetric])
  then show ?thesis by (simp add: rounding_example_rows)
qed

text \<open>
  Claim C8, amended: for every row of the RFM Aggregator's output, that is for every group
  (entity, period), \<^verbatim>\<open>F\<close> is the number of distinct invoice ids among the input rows
  of the group, and \<^verbatim>\<open>M\<close> is the float64 sum, accumulated in row order, of the float64
  products of quantity and unit price of these rows. \<^verbatim>\<open>M\<close> equals the exact sum of
  quantity times unit price when no rounding occurs, in particular when the unit prices of
  the group are whole numbers and the absolute amounts add up to less than \<open>2 ^ 53\<close>.
\<close>

theorem rfm_frequency_monetary_f64:
  assumes "x \<in> set (rfm_aggregator_f64 (assign_periods_f64 data))"
  shows "F x = card (InvoiceNo ` {r \<in> set data. in_group (rfm_CustomerID x) (rfm_HalfYear x) r})
       \<and> M x = f64_sum (map f64_amount (filter (in_group (rfm_CustomerID x) (rfm_HalfYear x)) data))
       \<and> ((\<forall>r \<in> set (filter (in_group (rfm_CustomerID x) (rfm_HalfYear x)) data).
               \<exists>p. UnitPrice r = of_int p)
            \<and> (\<Sum>r\<leftarrow>filter (in_group (rfm_CustomerID x) (rfm_HalfYear x)) data.
                  \<bar>exact_amount r\<bar>) < 2 ^ 53
          \<longrightarrow> M x = (\<Sum>r\<leftarrow>filter (in_group (rfm_CustomerID x) (rfm_HalfYear x)) data.
                        exact_amount r))"
proof -
  from assms obtain c h where
    x: "x = to_rfm (aggregate_f64 (assign_periods_f64 data) (c, h, h + 1))"
    by (rule rfm_aggregator_f64_row)
  note fields = rfm_row_fields_f64[OF x]
  have "F x = card (set (map InvoiceNo (filter (in_group c h) data)))"
    by (simp only: fields(3) nunique_def length_remdups_card_conv)
  then have f: "F x = card (InvoiceNo ` {r \<in> set data. in_group c h r})" by simp
  have m: "M x = f64_sum (map f64_amount (filter (in_group c h) data))" by (rule fields(4))
  have e: "M x = (\<Sum>r\<leftarrow>filter (in_group c h) data. exact_amount r)"
    if "\<forall>r \<in> set (filter (in_group c h) data). \<exists>p. UnitPrice r = of_int p"
      "(\<Sum>r\<leftarrow>filter (in_group c h) data. \<bar>exact_amount r\<bar>) < 2 ^ 53"
    using f64_sum_exact[OF that] m by simp
  from f m e show ?thesis unfolding fields(1,2) by blast
qed

theorem rfm_frequency_monetary_f64_witness:
  "\<lparr>rfm_CustomerID = 1, rfm_HalfYear = 1, rfm_NextHalfYear = 2, R = 91, F = 1, M = 10\<rparr>
     \<in> set (rfm_aggregator_f64 (assign_periods_f64 (outlier_filter (date_window
                (drop_missing_customers (example_sales 1 ''536365'' ''559001''))))))
   \<and> filter (in_group 1 1) (outlier_filter (date_window
                (drop_missing_customers (example_sales 1 ''536365'' ''559001''))))
       = [\<lparr>InvoiceNo = ''536365'', Quantity = 2, InvoiceDate = midnight 734197,
           UnitPrice = rat_of_int 5, CustomerID = 1\<rparr>]
   \<and> \<bar>exact_amount \<lparr>InvoiceNo = ''536365'', Quantity = 2, InvoiceDate = midnight 734197,
           UnitPrice = rat_of_int 5, CustomerID = 1\<rparr>\<bar> < 2 ^ 53
   \<and> exact_amount \<lparr>InvoiceNo = ''536365'', Quantity = 2, InvoiceDate = midnight 734197,
           UnitPrice = rat_of_int 5, CustomerID = 1\<rparr> = 10"
proof -
  let ?data = "outlier_filter (date_window
                (drop_missing_customers (example_sales 1 ''536365'' ''559001'')))"
  let ?x = "\<lparr>rfm_CustomerID = 1, rfm_HalfYear = 1, rfm_NextHalfYear = 2, R = 91, F = 1,
              M = 10\<rparr>"
  let ?r = "\<lparr>InvoiceNo = ''536365'', Quantity = 2, InvoiceDate = midnight 734197,
           UnitPrice = rat_of_int 5, CustomerID = 1\<rparr>"
  have x: "?x \<in> set (rfm_aggregator_f64 (assign_periods_f64 ?data))"
    by (simp add: sales_example_f64)
  have g: "filter (in_group 1 1) ?data = [?r]"
    by (simp add: sales_example_clean in_group_def get_period_def ts_date_midnight
          dt_date_consts)
  have "M ?x = (\<Sum>r\<leftarrow>filter (in_group 1 1) ?data. exact_amount r)"
    using rfm_frequency_monetary_f64[OF x] by (simp add: g exact_amount_def)
  then have "exact_amount ?r = 10" by (simp add: g)
  with x g show ?thesis by simp
qed

text \<open>
  Claim C3. For every transaction table that has passed the date window and the outlier
  filter, every row of the RFM Aggregator's output has a recency of at least 0 days, a
  frequency of at least 1 and a monetary value greater than 0.
\<close>

theorem rfm_rows_in_range:
  assumes "x \<in> set (rfm_aggregator (assign_periods (outlier_filter (date_window data))))"
  shows "0 \<le> R x \<and> 1 \<le> F x \<and> 0 < M x"
proof -
  let ?xs = "outlier_filter (date_window data)"
  from assms obtain c h where h: "h = 1 \<or> h = 2"
    and ne: "filter (in_group c h) ?xs \<noteq> []"
    and x: "x = to_rfm (aggregate (assign_periods ?xs) (c, h, h + 1))"
    by (rule rfm_aggregator_assign_periods_row)
  let ?g = "filter (in_group c h) ?xs"
  have g: "0 < Quantity r \<and> 0 < UnitPrice r \<and> ts_date (InvoiceDate r) < dt_date 2011 12 1
             \<and> get_period (InvoiceDate r) = h" if "r \<in> set ?g" for r
    using that by (auto simp: outlier_filter_set date_window_set in_group_def)
  have "0 < (\<Sum>r\<leftarrow>?g. of_int (Quantity r) * UnitPrice r)"
    using ne g by (intro sum_list_pos_rat) (auto intro: mult_pos_pos)
  then have m: "0 < M x" by (simp add: rfm_row_fields(5)[OF x])
  have "remdups (map InvoiceNo ?g) \<noteq> []" using ne by simp
  then have f: "1 \<le> F x"
    by (simp add: rfm_row_fields(4)[OF x] nunique_def Suc_le_eq del: remdups_eq_nil_iff)
  have "Max (set (map InvoiceDate ?g)) \<in> set (map InvoiceDate ?g)"
    using ne by (intro Max_in) (auto simp: filter_empty_conv)
  then obtain r where r: "r \<in> set ?g" and mx: "Max (set (map InvoiceDate ?g)) = InvoiceDate r"
    by auto
  from g[OF r] have "ts_date (InvoiceDate r) < dt_date 2011 12 1"
    and "get_period (InvoiceDate r) = h" by simp_all
  then have "0 \<le> (if h = 1 then dt_date 2011 5 31 else dt_date 2011 11 30)
                  - ts_date (InvoiceDate r)"
    by (auto simp: get_period_def dt_date_consts split: if_splits)
  then have "0 \<le> R x" by (simp only: rfm_row_fields(6)[OF x] mx)
  with f m show ?thesis by simp
qed

theorem rfm_rows_in_range_witness:
  "\<lparr>rfm_CustomerID = 1, rfm_HalfYear = 2, rfm_NextHalfYear = 3, R = 143, F = 1, M = 20\<rparr>
     \<in> set (rfm_data (example_sales 1 ''536365'' ''559001''))
   \<and> (0::int) \<le> 143 \<and> (1::nat) \<le> 1 \<and> (0::rat) < 20"
  using rfm_rows_in_range [of
      "\<lparr>rfm_CustomerID = 1, rfm_HalfYear = 2, rfm_NextHalfYear = 3, R = 143, F = 1, M = 20\<rparr>"
      "drop_missing_customers (example_sales 1 ''536365'' ''559001'')"]
    rfm_data_example [of 1 "''536365''" "''559001''"]
  by (simp add: rfm_data_def clean_data_def)

text \<open>
  Claim C4. For the two transactions (c, 2011-03-01, quantity 2, price 5) and
  (c, 2011-07-10, quantity 1, price 20), whatever their invoice ids, the RFM Aggregator
  produces exactly two rows for the customer, period 1 with monetary value 10 and period 2
  with monetary value 20, and the Label Joiner produces exactly one row: the recency of
  period 1 (91 days before 2011-05-31), frequency 1, monetary value 10 and label 20.
\<close>

theorem end_to_end_example:
  "rfm_data (example_sales c i1 i2) =
     [\<lparr>rfm_CustomerID = c, rfm_HalfYear = 1, rfm_NextHalfYear = 2, R = 91, F = 1, M = 10\<rparr>,
      \<lparr>rfm_CustomerID = c, rfm_HalfYear = 2, rfm_NextHalfYear = 3, R = 143, F = 1, M = 20\<rparr>]
   \<and> rfm_data_final (example_sales c i1 i2) =
     [\<lparr>lab_R = 91, lab_F = 1, lab_M = 10, lab_M_Next = Some 20\<rparr>]
   \<and> dt_date 2011 5 31 - dt_date 2011 3 1 = 91"
  by (simp add: rfm_data_example rfm_data_final_example dt_date_consts dt_date_example)


subsection \<open>Label Joiner\<close>

text \<open>
  Claim C1. For every raw transaction table: every row of the labeled table has a label
  (\<^verbatim>\<open>M_Next\<close> is not NaN); the labeled table is the column selection of the rows of the
  merge that have a label, and these rows have pairwise different (entity, period) keys;
  each of them comes from exactly one aggregate with that key, joined with an aggregate
  of the same entity for the next period, whose \<^verbatim>\<open>M\<close> is the label; and an entity
  all of whose aggregates lie in one period has no row among them.
\<close>

theorem label_join_complete:
  "(\<forall>y \<in> set (rfm_data_final raw). lab_M_Next y \<noteq> None)
   \<and> rfm_data_final raw = map select_columns (labeled_merged (rfm_data raw))
   \<and> distinct (map merged_key (labeled_merged (rfm_data raw)))
   \<and> (\<forall>x \<in> set (labeled_merged (rfm_data raw)).
         \<exists>!l. l \<in> set (rfm_data raw) \<and> rfm_key l = merged_key x
           \<and> (\<exists>r \<in> set (rfm_data raw).
                 rfm_CustomerID r = rfm_CustomerID l \<and> rfm_HalfYear r = rfm_HalfYear l + 1
                 \<and> x = joined l r \<and> M_Next x = Some (M r)))
   \<and> ((\<forall>l \<in> set (rfm_data raw). \<forall>r \<in> set (rfm_data raw).
          rfm_CustomerID l = c \<and> rfm_CustomerID r = c \<longrightarrow> rfm_HalfYear l = rfm_HalfYear r)
        \<longrightarrow> (\<forall>x \<in> set (labeled_merged (rfm_data raw)). rfm_CustomerID x \<noteq> c))"
proof -
  let ?rfm = "rfm_data raw"
  have final: "rfm_data_final raw = map select_columns (labeled_merged ?rfm)"
    by (simp add: rfm_data_final_def label_joiner_labeled_merged)
  have label: "\<forall>y \<in> set (rfm_data_final raw). lab_M_Next y \<noteq> None"
    by (simp add: rfm_data_final_def label_joiner_def)
  have dist: "distinct (map merged_key (labeled_merged ?rfm))"
    by (rule labeled_merged_keys_distinct) (rule rfm_data_keys_distinct)
  have origin: "\<exists>!l. l \<in> set ?rfm \<and> rfm_key l = merged_key x
           \<and> (\<exists>r \<in> set ?rfm.
                 rfm_CustomerID r = rfm_CustomerID l \<and> rfm_HalfYear r = rfm_HalfYear l + 1
                 \<and> x = joined l r \<and> M_Next x = Some (M r))"
    if "x \<in> set (labeled_merged ?rfm)" for x
  proof -
    from that obtain l r where l: "l \<in> set ?rfm" and r: "r \<in> set ?rfm"
      and m: "join_match l r" and x: "x = joined l r"
      by (rule labeled_merged_row)
    from rfm_data_periods[OF l] m
    have "rfm_CustomerID r = rfm_CustomerID l \<and> rfm_HalfYear r = rfm_HalfYear l + 1"
      by (simp add: join_match_def)
    moreover have "M_Next x = Some (M r)" by (simp add: x joined_def)
    moreover have "rfm_key l = merged_key x" by (simp add: x merged_key_joined)
    ultimately have ex: "l \<in> set ?rfm \<and> rfm_key l = merged_key x
           \<and> (\<exists>r \<in> set ?rfm.
                 rfm_CustomerID r = rfm_CustomerID l \<and> rfm_HalfYear r = rfm_HalfYear l + 1
                 \<and> x = joined l r \<and> M_Next x = Some (M r))"
      using l r x by blast
    show ?thesis
    proof (rule ex1I[of _ l])
      show "l \<in> set ?rfm \<and> rfm_key l = merged_key x
           \<and> (\<exists>r \<in> set ?rfm.
                 rfm_CustomerID r = rfm_CustomerID l \<and> rfm_HalfYear r = rfm_HalfYear l + 1
                 \<and> x = joined l r \<and> M_Next x = Some (M r))" by (rule ex)
    next
      fix l'
      assume "l' \<in> set ?rfm \<and> rfm_key l' = merged_key x
           \<and> (\<exists>r \<in> set ?rfm.
                 rfm_CustomerID r = rfm_CustomerID l' \<and> rfm_HalfYear r = rfm_HalfYear l' + 1
                 \<and> x = joined l' r \<and> M_Next x = Some (M r))"
      then have "l' \<in> set ?rfm" "rfm_key l' = rfm_key l" using ex by simp_all
      then show "l' = l"
        using distinct_map_eq[OF rfm_data_keys_distinct, of l' raw l] l by simp
    qed
  qed
  have single: "rfm_CustomerID x \<noteq> c"
    if one: "\<forall>l \<in> set ?rfm. \<forall>r \<in> set ?rfm.
          rfm_CustomerID l = c \<and> rfm_CustomerID r = c \<longrightarrow> rfm_HalfYear l = rfm_HalfYear r"
      and x: "x \<in> set (labeled_merged ?rfm)" for x
  proof
    assume c: "rfm_CustomerID x = c"
    from x obtain l r where l: "l \<in> set ?rfm" and r: "r \<in> set ?rfm"
      and m: "join_match l r" and xj: "x = joined l r"
      by (rule labeled_merged_row)
    from c xj have "rfm_CustomerID l = c" by (simp add: joined_def)
    moreover from this m have "rfm_CustomerID r = c" by (simp add: join_match_def)
    ultimately have "rfm_HalfYear l = rfm_HalfYear r" using one l r by blast
    moreover from rfm_data_periods[OF l] m have "rfm_HalfYear r = rfm_HalfYear l + 1"
      by (simp add: join_match_def)
    ultimately show False by simp
  qed
  from final label dist origin single show ?thesis by blast
qed

theorem label_join_complete_witness:
  "\<lparr>lab_R = 91, lab_F = 1, lab_M = 10, lab_M_Next = Some 20\<rparr>
      \<in> set (rfm_data_final example_single_period)
   \<and> lab_M_Next \<lparr>lab_R = 91, lab_F = 1, lab_M = 10, lab_M_Next = Some 20\<rparr> \<noteq> None
   \<and> map rfm_key (rfm_data example_single_period) = [(1, 1), (1, 2), (2, 1)]
   \<and> map merged_key (labeled_merged (rfm_data example_single_period)) = [(1, 1)]"
proof -
  have "rfm_data_final example_single_period
          = map select_columns (labeled_merged (rfm_data example_single_period))"
    by (rule label_join_complete [of example_single_period 2, THEN conjunct2, THEN conjunct1])
  then have "rfm_data_final example_single_period
          = [\<lparr>lab_R = 91, lab_F = 1, lab_M = 10, lab_M_Next = Some 20\<rparr>]"
    by (simp add: labeled_merged_example_single joined_def select_columns_def)
  moreover have "map rfm_key (rfm_data example_single_period) = [(1, 1), (1, 2), (2, 1)]"
    by (simp add: rfm_data_example_single rfm_key_def)
  moreover have "map merged_key (labeled_merged (rfm_data example_single_period)) = [(1, 1)]"
    by (simp add: labeled_merged_example_single merged_key_joined rfm_key_def)
  ultimately show ?thesis by simp
qed



subsection \<open>Determinism of the pipeline\<close>



section \<open>Properties of the Implicit Rating Deriver\<close>

lemma new_user_agg_data_dict3: "new_user_agg_data = dict3 0 0 0"
  by (simp add: new_user_agg_data_def dict3_def)

lemma map_of_dict3:
  "valid_action a \<Longrightarrow>
     map_of (dict3 b c d) a = Some (if a = ''buy'' then b else if a = ''addToCart'' then c else d)"
  by (auto simp: dict3_def valid_action_def)

lemma update_dict3:
  "valid_action a \<Longrightarrow>
     AList.update a ((if a = ''buy'' then b else if a = ''addToCart'' then c else d) + n) (dict3 b c d)
       = dict3 (b + bump a n ''buy'') (c + bump a n ''addToCart'') (d + bump a n ''details'')"
  by (auto simp: dict3_def valid_action_def bump_def)

lemma ref_of_movie_dict: "ref_of s m u = map_of (movie_dict s m) u"
  by (simp add: ref_of_def movie_dict_def split: option.splits)

lemma bumped_dict3:
  "bumped a n (dict3 b c d) =
     dict3 (b + bump a n ''buy'') (c + bump a n ''addToCart'') (d + bump a n ''details'')"
  by (simp add: bumped_def dict3_def)

lemma agg_step_fresh:
  assumes "ref_of s m u = None" "valid_action a"
  shows "agg_step s ((m, u, a), n) =
     Inr \<lparr>heap = heap s @ [bumped a n (dict3 0 0 0)],
          agg_data = AList.update m (AList.update u (length (heap s)) (movie_dict s m)) (agg_data s),
          user_agg_data = Some (length (heap s))\<rparr>"
  using assms update_dict3[of a 0 0 0 n]
  by (cases "map_of (agg_data s) m")
     (simp_all add: agg_step_def add_count_def Let_def update_conv' new_user_agg_data_dict3
        map_of_dict3 ref_of_def movie_dict_def bumped_dict3)

lemma agg_step_seen:
  assumes "ref_of s m u = Some r0" "user_agg_data s = Some r" "heap s ! r = dict3 b c d"
    "valid_action a"
  shows "agg_step s ((m, u, a), n) =
     Inr (s\<lparr>agg_data := AList.update m (AList.update u r (movie_dict s m)) (agg_data s),
            heap := (heap s)[r := bumped a n (dict3 b c d)]\<rparr>)"
  using assms update_dict3[of a b c d n]
  by (cases "map_of (agg_data s) m")
     (simp_all add: agg_step_def add_count_def Let_def update_conv' map_of_dict3
        ref_of_def movie_dict_def bumped_dict3 del: AList.update.simps)

lemma cnt_snoc:
  "cnt (prev @ [((m, u, a), n)]) (m', u', a') =
     cnt prev (m', u', a') + (if m' = m \<and> u' = u then bump a n a' else 0)"
  by (auto simp: cnt_def bump_def)

lemma counted_snoc:
  "counted (prev @ [((m, u, a), n)]) m' u' =
     (if m' = m \<and> u' = u then bumped a n (counted prev m u) else counted prev m' u')"
  by (simp add: counted_def cnt_snoc bumped_dict3)

lemma cnt_unseen: "\<not> seen prev m u \<Longrightarrow> cnt prev (m, u, a) = 0"
  by (auto simp: cnt_def seen_def filter_empty_conv intro!: sum_list_0)

lemma counted_unseen: "\<not> seen prev m u \<Longrightarrow> counted prev m u = dict3 0 0 0"
  by (simp add: counted_def cnt_unseen)

lemma seen_snoc: "seen (prev @ [((m, u, a), n)]) m' u' \<longleftrightarrow> seen prev m' u' \<or> (m' = m \<and> u' = u)"
  by (auto simp: seen_def)

lemma last_pair_snoc: "last_pair (prev @ [((m, u, a), n)]) = (m, u)"
  by (simp add: last_pair_def)

lemma movie_dict_update:
  "movie_dict (s\<lparr>agg_data := AList.update m md (agg_data s)\<rparr>) m' =
     (if m' = m then md else movie_dict s m')"
  by (simp add: movie_dict_def update_conv')

lemma agg_invD:
  assumes "agg_inv prev s"
  shows "distinct (map fst (agg_data s))"
    and "\<And>m. distinct (map fst (movie_dict s m))"
    and "\<And>m u. ref_of s m u = None \<longleftrightarrow> \<not> seen prev m u"
    and "\<And>m u r. ref_of s m u = Some r \<Longrightarrow> r < length (heap s)"
    and "\<And>m u r. ref_of s m u = Some r \<Longrightarrow> heap s ! r = counted prev m u"
    and "\<And>m u m' u' r. ref_of s m u = Some r \<Longrightarrow> ref_of s m' u' = Some r \<Longrightarrow> m = m' \<and> u = u'"
    and "prev \<noteq> [] \<Longrightarrow> user_agg_data s = ref_of s (fst (last_pair prev)) (snd (last_pair prev))"
proof -
  from assms show "distinct (map fst (agg_data s))" unfolding agg_inv_def by (rule conjunct1)
  from assms show "distinct (map fst (movie_dict s m))" for m unfolding agg_inv_def by blast
  from assms have "\<forall>m u. ref_of s m u \<noteq> None \<longleftrightarrow> seen prev m u" unfolding agg_inv_def by blast
  then show "ref_of s m u = None \<longleftrightarrow> \<not> seen prev m u" for m u by blast
  from assms have h: "\<forall>m u r. ref_of s m u = Some r \<longrightarrow> r < length (heap s) \<and> heap s ! r = counted prev m u"
    unfolding agg_inv_def by blast
  from h show "ref_of s m u = Some r \<Longrightarrow> r < length (heap s)" for m u r by blast
  from h show "ref_of s m u = Some r \<Longrightarrow> heap s ! r = counted prev m u" for m u r by blast
  from assms have "\<forall>m u m' u' r. ref_of s m u = Some r \<and> ref_of s m' u' = Some r \<longrightarrow> m = m' \<and> u = u'"
    unfolding agg_inv_def by blast
  then show "ref_of s m u = Some r \<Longrightarrow> ref_of s m' u' = Some r \<Longrightarrow> m = m' \<and> u = u'" for m u m' u' r
    by blast
  from assms show "prev \<noteq> [] \<Longrightarrow> user_agg_data s = ref_of s (fst (last_pair prev)) (snd (last_pair prev))"
    unfolding agg_inv_def by blast
qed

lemma agg_inv_fresh:
  assumes inv: "agg_inv prev s" and fresh: "\<not> seen prev m u" and a: "valid_action a"
  shows "\<exists>s'. agg_step s ((m, u, a), n) = Inr s' \<and> agg_inv (prev @ [((m, u, a), n)]) s'"
proof -
  note I = agg_invD[OF inv]
  let ?r = "length (heap s)"
  let ?s' = "\<lparr>heap = heap s @ [bumped a n (dict3 0 0 0)],
          agg_data = AList.update m (AList.update u ?r (movie_dict s m)) (agg_data s),
          user_agg_data = Some ?r\<rparr>"
  from fresh have none: "ref_of s m u = None" by (simp add: I(3))
  have step: "agg_step s ((m, u, a), n) = Inr ?s'" by (rule agg_step_fresh[OF none a])
  have md: "movie_dict ?s' m' = (if m' = m then AList.update u ?r (movie_dict s m) else movie_dict s m')" for m'
    by (simp add: movie_dict_def update_conv')
  have ref: "ref_of ?s' m' u' = (if m' = m \<and> u' = u then Some ?r else ref_of s m' u')" for m' u'
    by (simp add: ref_of_movie_dict md update_conv')
  have "agg_inv (prev @ [((m, u, a), n)]) ?s'"
    unfolding agg_inv_def
  proof (intro conjI allI impI)
    show "distinct (map fst (agg_data ?s'))"
      using I(1) by (simp add: distinct_update)
    show "distinct (map fst (movie_dict ?s' m'))" for m'
      using I(2) by (simp add: md distinct_update)
    show "ref_of ?s' m' u' \<noteq> None \<longleftrightarrow> seen (prev @ [((m, u, a), n)]) m' u'" for m' u'
      using I(3)[of m' u'] by (auto simp: ref seen_snoc)
    show "r < length (heap ?s')" if "ref_of ?s' m' u' = Some r" for m' u' r
      using that I(4)[of m' u' r] by (auto simp: ref split: if_splits)
    show "heap ?s' ! r = counted (prev @ [((m, u, a), n)]) m' u'" if "ref_of ?s' m' u' = Some r" for m' u' r
    proof (cases "m' = m \<and> u' = u")
      case True
      with that have "r = ?r" by (simp add: ref)
      with True show ?thesis by (simp add: counted_snoc counted_unseen[OF fresh])
    next
      case False
      with that have r: "ref_of s m' u' = Some r" by (simp add: ref)
      then have "r < ?r" "heap s ! r = counted prev m' u'" using I(4,5) by auto
      with False show ?thesis by (auto simp: counted_snoc nth_append)
    qed
    show "m1 = m2" if "ref_of ?s' m1 u1 = Some r \<and> ref_of ?s' m2 u2 = Some r" for m1 u1 m2 u2 r
      using that I(4)[of m1 u1 r] I(4)[of m2 u2 r] I(6)[of m1 u1 r m2 u2]
      by (auto simp: ref split: if_splits)
    show "u1 = u2" if "ref_of ?s' m1 u1 = Some r \<and> ref_of ?s' m2 u2 = Some r" for m1 u1 m2 u2 r
      using that I(4)[of m1 u1 r] I(4)[of m2 u2 r] I(6)[of m1 u1 r m2 u2]
      by (auto simp: ref split: if_splits)
    show "user_agg_data ?s' = ref_of ?s' (fst (last_pair (prev @ [((m, u, a), n)])))
             (snd (last_pair (prev @ [((m, u, a), n)])))"
      by (simp add: last_pair_snoc ref)
  qed
  with step show ?thesis by blast
qed

lemma agg_inv_seen:
  assumes inv: "agg_inv prev s" and seen: "seen prev m u" and a: "valid_action a"
    and last: "last_pair prev = (m, u)"
  shows "\<exists>s'. agg_step s ((m, u, a), n) = Inr s' \<and> agg_inv (prev @ [((m, u, a), n)]) s'"
proof -
  note I = agg_invD[OF inv]
  from seen have ne: "prev \<noteq> []" by (auto simp: seen_def)
  from seen I(3)[of m u] obtain r where r: "ref_of s m u = Some r" by auto
  with I(7)[OF ne] last have uad: "user_agg_data s = Some r" by simp
  from r have lt: "r < length (heap s)" and hr: "heap s ! r = counted prev m u"
    using I(4,5) by auto
  let ?s' = "s\<lparr>agg_data := AList.update m (AList.update u r (movie_dict s m)) (agg_data s),
            heap := (heap s)[r := bumped a n (counted prev m u)]\<rparr>"
  have step: "agg_step s ((m, u, a), n) = Inr ?s'"
    using agg_step_seen[OF r uad _ a, of "cnt prev (m, u, ''buy'')" "cnt prev (m, u, ''addToCart'')"
        "cnt prev (m, u, ''details'')" n] hr
    by (simp add: counted_def)
  have md: "movie_dict ?s' m' = (if m' = m then AList.update u r (movie_dict s m) else movie_dict s m')" for m'
    by (simp add: movie_dict_def update_conv')
  have ref: "ref_of ?s' m' u' = ref_of s m' u'" for m' u'
    using r by (auto simp: ref_of_movie_dict md update_conv')
  have "agg_inv (prev @ [((m, u, a), n)]) ?s'"
    unfolding agg_inv_def
  proof (intro conjI allI impI)
    show "distinct (map fst (agg_data ?s'))"
      using I(1) by (simp add: distinct_update)
    show "distinct (map fst (movie_dict ?s' m'))" for m'
      using I(2) by (simp add: md distinct_update)
    show "ref_of ?s' m' u' \<noteq> None \<longleftrightarrow> seen (prev @ [((m, u, a), n)]) m' u'" for m' u'
      using I(3)[of m' u'] seen by (auto simp: ref seen_snoc)
    show "r' < length (heap ?s')" if "ref_of ?s' m' u' = Some r'" for m' u' r'
      using that I(4)[of m' u' r'] by (simp add: ref)
    show "heap ?s' ! r' = counted (prev @ [((m, u, a), n)]) m' u'" if "ref_of ?s' m' u' = Some r'" for m' u' r'
    proof (cases "m' = m \<and> u' = u")
      case True
      with that r have "r' = r" by (simp add: ref)
      with True lt show ?thesis by (simp add: counted_snoc)
    next
      case False
      from that have r': "ref_of s m' u' = Some r'" by (simp add: ref)
      with False r I(6)[of m' u' r' m u] have "r' \<noteq> r" by blast
      moreover from r' have "heap s ! r' = counted prev m' u'" by (rule I(5))
      ultimately show ?thesis using False by (auto simp: counted_snoc)
    qed
    show "m1 = m2" if "ref_of ?s' m1 u1 = Some r' \<and> ref_of ?s' m2 u2 = Some r'" for m1 u1 m2 u2 r'
      using that I(6)[of m1 u1 r' m2 u2] by (simp add: ref)
    show "u1 = u2" if "ref_of ?s' m1 u1 = Some r' \<and> ref_of ?s' m2 u2 = Some r'" for m1 u1 m2 u2 r'
      using that I(6)[of m1 u1 r' m2 u2] by (simp add: ref)
    show "user_agg_data ?s' = ref_of ?s' (fst (last_pair (prev @ [((m, u, a), n)])))
             (snd (last_pair (prev @ [((m, u, a), n)])))"
      using uad r by (simp add: last_pair_snoc ref)
  qed
  with step show ?thesis by blast
qed

lemma agg_inv_init: "agg_inv [] \<lparr>heap = [], agg_data = [], user_agg_data = None\<rparr>"
  by (simp add: agg_inv_def movie_dict_def ref_of_def seen_def)

lemma lex_squeeze:
  fixes m u x y :: int and a a' z :: string
  assumes "(m, u, a') \<le> (x, y, z)" "(x, y, z) \<le> (m, u, a)"
  shows "x = m \<and> y = u"
  using assms by auto

lemma sorted_le_last: "sorted xs \<Longrightarrow> x \<in> set xs \<Longrightarrow> x \<le> last xs"
  by (induction xs) (auto split: if_splits)

lemma seen_last_pair:
  assumes "sorted (map fst (prev @ [((m, u, a), n)]))" "seen prev m u"
  shows "last_pair prev = (m, u)"
proof -
  from assms(2) obtain a' n' where e: "((m, u, a'), n') \<in> set prev" by (auto simp: seen_def)
  then have ne: "prev \<noteq> []" by auto
  obtain x y z n'' where l: "last prev = ((x, y, z), n'')" by (cases "last prev") auto
  from assms(1) have s: "sorted (map fst prev)" and le: "\<forall>k \<in> set (map fst prev). k \<le> (m, u, a)"
    by (auto simp: sorted_append)
  from e have "(m, u, a') \<in> set (map fst prev)" by force
  with s have "(m, u, a') \<le> last (map fst prev)" by (rule sorted_le_last)
  then have 1: "(m, u, a') \<le> (x, y, z)" using ne l by (simp add: last_map)
  have "last prev \<in> set prev" using ne by simp
  then have "(x, y, z) \<in> set (map fst prev)" using l by force
  with le have 2: "(x, y, z) \<le> (m, u, a)" by blast
  from lex_squeeze[OF 1 2] l show ?thesis by (simp add: last_pair_def)
qed

lemma agg_loop_inv:
  assumes "agg_inv prev s" "sorted (map fst (prev @ rest))"
    "\<forall>e \<in> set rest. valid_action (snd (snd (fst e)))"
  shows "\<exists>s'. agg_loop s rest = Inr s' \<and> agg_inv (prev @ rest) s'"
  using assms
proof (induction rest arbitrary: prev s)
  case Nil
  then show ?case by simp
next
  case (Cons e rest)
  obtain m u a n where e: "e = ((m, u, a), n)" by (cases e) auto
  from Cons.prems(3) e have a: "valid_action a" by simp
  from Cons.prems(2) e have srt: "sorted (map fst (prev @ [((m, u, a), n)]))"
    by (simp add: sorted_append)
  have "\<exists>s'. agg_step s ((m, u, a), n) = Inr s' \<and> agg_inv (prev @ [((m, u, a), n)]) s'"
  proof (cases "seen prev m u")
    case True
    then show ?thesis
      using agg_inv_seen[OF Cons.prems(1) True a seen_last_pair[OF srt True]] by blast
  next
    case False
    then show ?thesis using agg_inv_fresh[OF Cons.prems(1) False a] by blast
  qed
  then obtain s1 where s1: "agg_step s e = Inr s1" and inv1: "agg_inv (prev @ [e]) s1"
    using e by blast
  from Cons.IH[OF inv1] Cons.prems(2,3)
  obtain s' where "agg_loop s1 rest = Inr s'" "agg_inv ((prev @ [e]) @ rest) s'" by auto
  with s1 show ?case by simp
qed

lemma counts_keys: "map fst (counts data) = sort (remdups (map action_key data))"
  by (simp add: counts_def Let_def o_def)

lemma cnt_tabulate:
  "distinct ks \<Longrightarrow> cnt (map (\<lambda>k. (k, f k)) ks) k = (if k \<in> set ks then f k else 0)"
  by (induction ks) (auto simp: cnt_def)

lemma cnt_counts: "cnt (counts data) (m, u, a) = action_count data m u a"
proof -
  let ?keys = "map action_key data"
  let ?f = "\<lambda>k. length (filter (\<lambda>k'. k' = k) ?keys)"
  have "cnt (counts data) (m, u, a) = (if (m, u, a) \<in> set ?keys then ?f (m, u, a) else 0)"
    unfolding counts_def Let_def by (subst cnt_tabulate) simp_all
  also have "\<dots> = ?f (m, u, a)"
    by (force simp: filter_empty_conv)
  also have "\<dots> = action_count data m u a"
    by (simp add: action_count_def filter_map o_def action_key_def)
  finally show ?thesis .
qed

lemma counted_counts:
  "counted (counts data) m u =
     dict3 (action_count data m u ''buy'') (action_count data m u ''addToCart'')
           (action_count data m u ''details'')"
  by (simp add: counted_def cnt_counts)

lemma seen_counts:
  "seen (counts data) m u \<longleftrightarrow> (m, u) \<in> (\<lambda>r. (MovieId r, UserId r)) ` set data"
proof -
  have "seen (counts data) m u \<longleftrightarrow> (\<exists>a. (m, u, a) \<in> set (map fst (counts data)))"
    by (force simp: seen_def)
  also have "\<dots> \<longleftrightarrow> (\<exists>a. (m, u, a) \<in> action_key ` set data)"
    by (simp add: counts_keys)
  also have "\<dots> \<longleftrightarrow> (m, u) \<in> (\<lambda>r. (MovieId r, UserId r)) ` set data"
    by (auto simp: action_key_def image_iff)
  finally show ?thesis .
qed

lemma counts_valid:
  assumes "\<forall>r \<in> set data. valid_action (Action r)"
  shows "\<forall>e \<in> set (counts data). valid_action (snd (snd (fst e)))"
proof
  fix e assume "e \<in> set (counts data)"
  then have "fst e \<in> set (map fst (counts data))" by simp
  then have "fst e \<in> action_key ` set data" by (simp add: counts_keys)
  with assms show "valid_action (snd (snd (fst e)))" by (auto simp: action_key_def)
qed

lemma agg_loop_counts:
  assumes "\<forall>r \<in> set data. valid_action (Action r)"
  shows "\<exists>s. agg_loop \<lparr>heap = [], agg_data = [], user_agg_data = None\<rparr> (counts data) = Inr s
            \<and> agg_inv (counts data) s"
  using agg_loop_inv[OF agg_inv_init, of "counts data"] counts_valid[OF assms]
  by (simp add: counts_keys)

lemma user_keys_Cons:
  "user_keys ((m, md) # al) = map (\<lambda>(u, r). (m, u, r)) md @ user_keys al"
  by (simp add: user_keys_def)

lemma user_keys_mem:
  "(m, u, r) \<in> set (user_keys al) \<longleftrightarrow> (\<exists>md. (m, md) \<in> set al \<and> (u, r) \<in> set md)"
  by (induction al) (auto simp: user_keys_Cons user_keys_def)

lemma user_keys_distinct:
  "distinct (map fst al) \<Longrightarrow> (\<And>m md. (m, md) \<in> set al \<Longrightarrow> distinct (map fst md))
     \<Longrightarrow> distinct (map (\<lambda>(m, u, r). (m, u)) (user_keys al))"
proof (induction al)
  case Nil
  then show ?case by (simp add: user_keys_def)
next
  case (Cons p al)
  obtain m md where p: "p = (m, md)" by (cases p)
  have "distinct (map fst md)" using Cons.prems(2)[of m md] p by simp
  then have 1: "distinct (map (\<lambda>(m, u, r). (m, u)) (map (\<lambda>(u, r). (m, u, r)) md))"
    by (simp add: distinct_map o_def case_prod_unfold inj_on_def)
  have 2: "distinct (map (\<lambda>(m, u, r). (m, u)) (user_keys al))"
    using Cons by auto
  have 3: "fst k \<noteq> m" if "k \<in> set (user_keys al)" for k
  proof -
    obtain m' u r where k: "k = (m', u, r)" by (cases k)
    with that have "m' \<in> fst ` set al" by (force simp: user_keys_mem)
    with Cons.prems(1) p k show ?thesis by auto
  qed
  show ?case unfolding p user_keys_Cons using 1 2 3 by (auto simp: case_prod_unfold)
qed

lemma user_keys_ref_of:
  assumes "agg_inv prev s"
  shows "(m, u, r) \<in> set (user_keys (agg_data s)) \<longleftrightarrow> ref_of s m u = Some r"
    and "distinct (map (\<lambda>(m, u, r). (m, u)) (user_keys (agg_data s)))"
proof -
  note I = agg_invD[OF assms]
  have md: "distinct (map fst md)" if "(m, md) \<in> set (agg_data s)" for m md
  proof -
    from that I(1) have "map_of (agg_data s) m = Some md" by simp
    then have "movie_dict s m = md" by (simp add: movie_dict_def)
    with I(2)[of m] show ?thesis by simp
  qed
  show "distinct (map (\<lambda>(m, u, r). (m, u)) (user_keys (agg_data s)))"
    using I(1) md by (rule user_keys_distinct)
  show "(m, u, r) \<in> set (user_keys (agg_data s)) \<longleftrightarrow> ref_of s m u = Some r"
  proof
    assume "(m, u, r) \<in> set (user_keys (agg_data s))"
    then obtain md where a: "(m, md) \<in> set (agg_data s)" and b: "(u, r) \<in> set md"
      by (auto simp: user_keys_mem)
    from a I(1) have "map_of (agg_data s) m = Some md" by simp
    moreover from b md[OF a] have "map_of md u = Some r" by simp
    ultimately show "ref_of s m u = Some r" by (simp add: ref_of_def)
  next
    assume "ref_of s m u = Some r"
    then obtain md where a: "map_of (agg_data s) m = Some md" and b: "map_of md u = Some r"
      by (auto simp: ref_of_def split: option.splits)
    then have "(m, md) \<in> set (agg_data s)" "(u, r) \<in> set md" by (auto dest: map_of_SomeD)
    then show "(m, u, r) \<in> set (user_keys (agg_data s))" by (auto simp: user_keys_mem)
  qed
qed

lemma weigh_dict3: "weigh (dict3 b c d) weights 0 = Inr (b * 100 + c * 50 + d * 15)"
  by (simp add: weights_def dict3_def)

lemma rate_loop_scores:
  assumes "\<And>m u r. (m, u, r) \<in> set ps \<Longrightarrow> weigh (h ! r) weights 0 = Inr (f m u)"
  shows "rate_loop h ps st =
     Inr \<lparr>raw_ratings = raw_ratings st @ map (\<lambda>(m, u, r). (m, u, f m u)) ps,
          max_rating = fold max (map (\<lambda>(m, u, r). f m u) ps) (max_rating st)\<rparr>"
  using assms
proof (induction ps arbitrary: st)
  case Nil
  then show ?case by simp
next
  case (Cons p ps)
  obtain m u r where p: "p = (m, u, r)" by (cases p)
  have w: "weigh (h ! r) weights 0 = Inr (f m u)" using Cons.prems[of m u r] p by simp
  have mx: "(if max_rating st < f m u then f m u else max_rating st) = max (f m u) (max_rating st)"
    by (simp add: max_def)
  have "rate_loop h ps \<lparr>raw_ratings = raw_ratings st @ [(m, u, f m u)],
             max_rating = max (f m u) (max_rating st)\<rparr> =
     Inr \<lparr>raw_ratings = (raw_ratings st @ [(m, u, f m u)]) @ map (\<lambda>(m, u, r). (m, u, f m u)) ps,
          max_rating = fold max (map (\<lambda>(m, u, r). f m u) ps) (max (f m u) (max_rating st))\<rparr>"
    using Cons.IH[of "\<lparr>raw_ratings = raw_ratings st @ [(m, u, f m u)],
             max_rating = max (f m u) (max_rating st)\<rparr>"] Cons.prems by simp
  then show ?case
    by (simp add: p w mx)
qed

lemma fold_max_Max: "fold max xs (0::nat) = Max (insert 0 (set xs))"
  using Max.set_eq_fold[of 0 xs] by simp

lemma implicit_ratings_valid:
  assumes valid: "\<forall>r \<in> set data. valid_action (Action r)"
  shows "\<exists>rows. implicit_ratings data = Inr rows
        \<and> distinct (map rated_pair rows)
        \<and> set (map rated_pair rows) = (\<lambda>r. (MovieId r, UserId r)) ` set data
        \<and> (\<forall>row \<in> set rows.
              RawRating row = raw_score data (rating_MovieId row) (rating_UserId row)
              \<and> Rating row = np_divide (10 * of_nat (RawRating row)) (max_score data))"
proof -
  from agg_loop_counts[OF valid] obtain s where
    loop: "agg_loop \<lparr>heap = [], agg_data = [], user_agg_data = None\<rparr> (counts data) = Inr s"
    and inv: "agg_inv (counts data) s" by blast
  note I = agg_invD[OF inv]
  let ?ps = "user_keys (agg_data s)"
  let ?pair = "\<lambda>(m, u, r). (m, u)"
  let ?score = "\<lambda>(m, u, r). raw_score data m u"
  have mem: "(m, u, r) \<in> set ?ps \<longleftrightarrow> ref_of s m u = Some r" for m u r
    by (rule user_keys_ref_of(1)[OF inv])
  have dist: "distinct (map ?pair ?ps)" by (rule user_keys_ref_of(2)[OF inv])
  have pairs: "set (map ?pair ?ps) = (\<lambda>r. (MovieId r, UserId r)) ` set data"
  proof (rule set_eqI)
    fix k :: "int \<times> int"
    obtain m u where k: "k = (m, u)" by (cases k)
    have "k \<in> set (map ?pair ?ps) \<longleftrightarrow> (\<exists>r. (m, u, r) \<in> set ?ps)"
      unfolding k by force
    also have "\<dots> \<longleftrightarrow> ref_of s m u \<noteq> None" by (simp add: mem)
    also have "\<dots> \<longleftrightarrow> seen (counts data) m u" using I(3)[of m u] by simp
    also have "\<dots> \<longleftrightarrow> k \<in> (\<lambda>r. (MovieId r, UserId r)) ` set data"
      by (simp add: seen_counts k)
    finally show "k \<in> set (map ?pair ?ps) \<longleftrightarrow> k \<in> (\<lambda>r. (MovieId r, UserId r)) ` set data" .
  qed
  have w: "weigh (heap s ! r) weights 0 = Inr (raw_score data m u)" if "(m, u, r) \<in> set ?ps" for m u r
  proof -
    from that have "ref_of s m u = Some r" by (simp add: mem)
    then have "heap s ! r = counted (counts data) m u" by (rule I(5))
    then show ?thesis by (simp add: counted_counts weigh_dict3 raw_score_def)
  qed
  let ?st = "\<lparr>raw_ratings = map (\<lambda>(m, u, r). (m, u, raw_score data m u)) ?ps,
          max_rating = fold max (map ?score ?ps) 0\<rparr>"
  have rate: "rate_loop (heap s) ?ps \<lparr>raw_ratings = [], max_rating = 0\<rparr> = Inr ?st"
    using rate_loop_scores[of ?ps "heap s" "raw_score data" "\<lparr>raw_ratings = [], max_rating = 0\<rparr>"] w
    by simp
  have "set (map ?score ?ps) = (\<lambda>k. raw_score data (fst k) (snd k)) ` set (map ?pair ?ps)"
    by (force simp: image_iff)
  also have "\<dots> = (\<lambda>r. raw_score data (MovieId r) (UserId r)) ` set data"
    unfolding pairs by (simp add: image_image)
  finally have "max_rating ?st = max_score data"
    by (simp add: fold_max_Max max_score_def del: set_map)
  then have rows: "normalize ?st =
      map (\<lambda>(m, u, r). \<lparr>rating_MovieId = m, rating_UserId = u, RawRating = raw_score data m u,
             Rating = np_divide (10 * of_nat (raw_score data m u)) (max_score data)\<rparr>) ?ps"
    by (simp add: normalize_def o_def case_prod_unfold)
  have res: "implicit_ratings data = Inr (normalize ?st)"
    by (simp add: implicit_ratings_def loop rate)
  have rp: "map rated_pair (normalize ?st) = map ?pair ?ps"
    unfolding rows by (simp add: rated_pair_def o_def case_prod_unfold)
  have each: "RawRating row = raw_score data (rating_MovieId row) (rating_UserId row)
              \<and> Rating row = np_divide (10 * of_nat (RawRating row)) (max_score data)"
    if "row \<in> set (normalize ?st)" for row
    using that unfolding rows by auto
  from res dist pairs each show ?thesis
    unfolding rp[symmetric] by blast
qed

lemma action_count_pos:
  "r \<in> set data \<Longrightarrow> 0 < action_count data (MovieId r) (UserId r) (Action r)"
  by (auto simp: action_count_def filter_empty_conv)

lemma raw_score_ge_15:
  assumes "r \<in> set data" "valid_action (Action r)"
  shows "15 \<le> raw_score data (MovieId r) (UserId r)"
  using action_count_pos[OF assms(1)] assms(2)
  by (auto simp: raw_score_def valid_action_def)

lemma max_score_ge:
  "r \<in> set data \<Longrightarrow> raw_score data (MovieId r) (UserId r) \<le> max_score data"
  unfolding max_score_def by (rule Max_ge) auto

lemma max_score_pos:
  assumes "data \<noteq> []" "\<forall>r \<in> set data. valid_action (Action r)"
  shows "0 < max_score data"
proof -
  from assms(1) obtain r where r: "r \<in> set data" by (cases data) auto
  with assms(2) have "15 \<le> raw_score data (MovieId r) (UserId r)" by (simp add: raw_score_ge_15)
  with max_score_ge[OF r] show ?thesis by simp
qed

lemma max_score_attained:
  assumes "data \<noteq> []"
  shows "\<exists>r \<in> set data. raw_score data (MovieId r) (UserId r) = max_score data"
proof -
  let ?S = "(\<lambda>r. raw_score data (MovieId r) (UserId r)) ` set data"
  have ne: "?S \<noteq> {}" using assms by simp
  have "Max (insert 0 ?S) = max 0 (Max ?S)" using ne by simp
  then have "max_score data = Max ?S" by (simp add: max_score_def)
  moreover have "Max ?S \<in> ?S" using ne by (intro Max_in) auto
  ultimately show ?thesis by auto
qed

lemma np_divide_pos: "0 < d \<Longrightarrow> np_divide x d = Finite (x / of_nat d)"
  by (simp add: np_divide_def)


lemma unknown_action_raises:
  "implicit_ratings [\<lparr>MovieId = 1, UserId = 1, Action = ''rate''\<rparr>] = Inl KeyError"
  by (simp add: implicit_ratings_def counts_def action_key_def agg_step_def add_count_def
        new_user_agg_data_def Let_def)

lemma map_of_dict3_invalid: "\<not> valid_action a \<Longrightarrow> map_of (dict3 b c d) a = None"
  by (simp add: dict3_def valid_action_def)

lemma agg_loop_append:
  "agg_loop s (xs @ ys) = (case agg_loop s xs of Inl e \<Rightarrow> Inl e | Inr s' \<Rightarrow> agg_loop s' ys)"
  by (induction xs arbitrary: s) (auto split: sum.splits)

lemma agg_step_invalid:
  assumes inv: "agg_inv prev s" and a: "\<not> valid_action a"
    and srt: "sorted (map fst (prev @ [((m, u, a), n)]))"
  shows "agg_step s ((m, u, a), n) = Inl KeyError"
proof (cases "seen prev m u")
  case False
  note I = agg_invD[OF inv]
  from False have none: "ref_of s m u = None" by (simp add: I(3))
  show ?thesis
    using none map_of_dict3_invalid[OF a, of 0 0 0]
    by (cases "map_of (agg_data s) m")
       (simp_all add: agg_step_def add_count_def Let_def update_conv' new_user_agg_data_dict3
          ref_of_def)
next
  case True
  note I = agg_invD[OF inv]
  from True have ne: "prev \<noteq> []" by (auto simp: seen_def)
  from True I(3)[of m u] obtain r where r: "ref_of s m u = Some r" by auto
  from seen_last_pair[OF srt True] I(7)[OF ne] r have uad: "user_agg_data s = Some r" by simp
  from r have hr: "heap s ! r = counted prev m u" by (rule I(5))
  show ?thesis
    using r uad hr map_of_dict3_invalid[OF a]
    by (cases "map_of (agg_data s) m")
       (simp_all add: agg_step_def add_count_def Let_def update_conv' ref_of_def counted_def)
qed

lemma implicit_ratings_invalid:
  assumes "\<exists>r \<in> set data. \<not> valid_action (Action r)"
  shows "implicit_ratings data = Inl KeyError"
proof -
  let ?bad = "\<lambda>e. \<not> valid_action (snd (snd (fst e)))"
  from assms obtain r where r: "r \<in> set data" "\<not> valid_action (Action r)" by blast
  then have "action_key r \<in> set (map fst (counts data))" by (simp add: counts_keys)
  then obtain e where e0: "e \<in> set (counts data)" "fst e = action_key r" by auto
  from e0(2) r(2) have "?bad e" by (simp add: action_key_def)
  with e0(1) have "\<exists>e \<in> set (counts data). ?bad e" by blast
  from split_list_first_prop[OF this]
  obtain pre e post where split: "counts data = pre @ e # post"
    and bad: "?bad e" and good: "\<forall>x \<in> set pre. \<not> ?bad x"
    by blast
  obtain m u a n where e: "e = ((m, u, a), n)" by (cases e) auto
  have "sorted (map fst (counts data))" by (simp add: counts_keys)
  then have srt: "sorted (map fst (pre @ [e]))" by (simp add: split sorted_append)
  then have "sorted (map fst ([] @ pre))" by (simp add: sorted_append)
  with agg_loop_inv[OF agg_inv_init, of pre] good
  obtain s1 where s1: "agg_loop \<lparr>heap = [], agg_data = [], user_agg_data = None\<rparr> pre = Inr s1"
    and inv: "agg_inv pre s1" by auto
  from bad e have "\<not> valid_action a" by simp
  from agg_step_invalid[OF inv this] srt have "agg_step s1 e = Inl KeyError" by (simp add: e)
  then have "agg_loop \<lparr>heap = [], agg_data = [], user_agg_data = None\<rparr> (counts data)
               = Inl KeyError"
    by (simp add: split agg_loop_append s1)
  then show ?thesis by (simp add: implicit_ratings_def)
qed

subsection \<open>Behaviour on an empty log\<close>

text \<open>
  Claim C2, as stated: on an empty action log the Implicit Rating Deriver fails with an
  error. It does not: the run ends without an error.
\<close>

theorem empty_log_fails_counterexample:
  "\<not> (\<exists>e. implicit_ratings [] = Inl e)"
  by (simp add: implicit_ratings_def counts_def user_keys_def normalize_def)

text \<open>
  Claim C2, amended: on an empty action log the Implicit Rating Deriver does not fail; the
  series of counts is empty, \<^verbatim>\<open>max_rating\<close> stays 0, no row is divided by it, and the
  result is the empty ratings table.
\<close>

theorem empty_log_ratings:
  "counts [] = []
   \<and> rate_loop [] (user_keys []) \<lparr>raw_ratings = [], max_rating = 0\<rparr>
       = Inr \<lparr>raw_ratings = [], max_rating = 0\<rparr>
   \<and> implicit_ratings [] = Inr []"
  by (simp add: implicit_ratings_def counts_def user_keys_def normalize_def)

subsection \<open>Bounds and uniqueness of ratings\<close>

text \<open>
  Claim C5, as stated, for every non-empty action log: in a log of two rows, one of them
  with an action that is not in the weight table, the deriver raises \<^verbatim>\<open>KeyError\<close>, so
  the pair of the other row, which has a recorded action, receives no rating.
\<close>

theorem rating_per_pair_counterexample:
  "[\<lparr>MovieId = 1, UserId = 1, Action = ''details''\<rparr>,
    \<lparr>MovieId = 2, UserId = 2, Action = ''rate''\<rparr>] \<noteq> []
   \<and> implicit_ratings
        [\<lparr>MovieId = 1, UserId = 1, Action = ''details''\<rparr>,
         \<lparr>MovieId = 2, UserId = 2, Action = ''rate''\<rparr>] = Inl KeyError"
  by (simp add: implicit_ratings_def counts_def action_key_def agg_step_def add_count_def
        new_user_agg_data_def Let_def)

text \<open>
  Claim C5, amended: for every non-empty action log all of whose actions are of the three
  types of the weight table (buy, addToCart, details), the deriver returns a ratings table
  in which every rating is a finite value between 0 and 10, every row whose raw score is
  maximal has rating exactly 10 (and there is such a row), and there is exactly one row per
  (movie, user) pair that occurs in the log.
\<close>

theorem rating_bounds:
  assumes "data \<noteq> []" and "\<forall>r \<in> set data. valid_action (Action r)"
  shows "\<exists>rows. implicit_ratings data = Inr rows
     \<and> (\<forall>row \<in> set rows. \<exists>q. Rating row = Finite q \<and> 0 \<le> q \<and> q \<le> 10)
     \<and> (\<forall>row \<in> set rows.
           (\<forall>row' \<in> set rows. RawRating row' \<le> RawRating row) \<longrightarrow> Rating row = Finite 10)
     \<and> (\<exists>row \<in> set rows. Rating row = Finite 10)
     \<and> distinct (map rated_pair rows)
     \<and> set (map rated_pair rows) = (\<lambda>r. (MovieId r, UserId r)) ` set data"
proof -
  from implicit_ratings_valid[OF assms(2)] obtain rows where
    res: "implicit_ratings data = Inr rows"
    and dist: "distinct (map rated_pair rows)"
    and pairs: "set (map rated_pair rows) = (\<lambda>r. (MovieId r, UserId r)) ` set data"
    and each: "\<And>row. row \<in> set rows \<Longrightarrow>
              RawRating row = raw_score data (rating_MovieId row) (rating_UserId row)
              \<and> Rating row = np_divide (10 * of_nat (RawRating row)) (max_score data)"
    by blast
  have pos: "0 < max_score data" by (rule max_score_pos[OF assms])
  have origin: "\<exists>r \<in> set data. rating_MovieId row = MovieId r \<and> rating_UserId row = UserId r"
    if "row \<in> set rows" for row
  proof -
    from that have "rated_pair row \<in> set (map rated_pair rows)" by simp
    then show ?thesis unfolding pairs by (auto simp: rated_pair_def)
  qed
  have le: "RawRating row \<le> max_score data" if "row \<in> set rows" for row
    using origin[OF that] each[OF that] max_score_ge by auto
  have rating: "Rating row = Finite (10 * of_nat (RawRating row) / of_nat (max_score data))"
    if "row \<in> set rows" for row
    using each[OF that] pos by (simp add: np_divide_pos)
  have bounds: "\<exists>q. Rating row = Finite q \<and> 0 \<le> q \<and> q \<le> 10" if "row \<in> set rows" for row
  proof -
    have "(of_nat (RawRating row) :: rat) \<le> of_nat (max_score data)"
      using le[OF that] by simp
    then have "10 * of_nat (RawRating row) / (of_nat (max_score data) :: rat) \<le> 10"
      using pos by (simp add: divide_le_eq)
    moreover have "0 \<le> 10 * of_nat (RawRating row) / (of_nat (max_score data) :: rat)"
      by simp
    ultimately show ?thesis using rating[OF that] by blast
  qed
  from max_score_attained[OF assms(1)] obtain r where r: "r \<in> set data"
    and mx: "raw_score data (MovieId r) (UserId r) = max_score data" by blast
  from r have "(MovieId r, UserId r) \<in> set (map rated_pair rows)" unfolding pairs by simp
  then obtain top where top: "top \<in> set rows" and tp: "rated_pair top = (MovieId r, UserId r)"
    by auto
  from each[OF top] tp mx have topmax: "RawRating top = max_score data"
    by (simp add: rated_pair_def)
  have ten: "Rating row = Finite 10" if "row \<in> set rows" "RawRating row = max_score data" for row
    using rating[OF that(1)] that(2) pos by simp
  have maximal: "Rating row = Finite 10"
    if "row \<in> set rows" "\<forall>row' \<in> set rows. RawRating row' \<le> RawRating row" for row
  proof -
    from that(2) top topmax have "max_score data \<le> RawRating row" by auto
    with le[OF that(1)] have "RawRating row = max_score data" by simp
    with that(1) show ?thesis by (rule ten)
  qed
  have "\<exists>row \<in> set rows. Rating row = Finite 10"
    using top ten[OF top topmax] by blast
  with res bounds maximal dist pairs show ?thesis by blast
qed

theorem rating_bounds_witness:
  "example_actions \<noteq> [] \<and> valid_action ''details'' \<and> valid_action ''addToCart''
   \<and> (\<exists>rows. implicit_ratings example_actions = Inr rows
         \<and> distinct (map rated_pair rows) \<and> set (map rated_pair rows) = {(1, 1)})"
proof -
  have ne: "example_actions \<noteq> []" by (simp add: example_actions_def)
  have v: "\<forall>r \<in> set example_actions. valid_action (Action r)"
    by (simp add: example_actions_def valid_action_def)
  from rating_bounds[OF ne v] obtain rows where
    "implicit_ratings example_actions = Inr rows" "distinct (map rated_pair rows)"
    "set (map rated_pair rows) = (\<lambda>r. (MovieId r, UserId r)) ` set example_actions"
    by blast
  moreover have "(\<lambda>r. (MovieId r, UserId r)) ` set example_actions = {(1, 1)}"
    by (simp add: example_actions_def)
  ultimately show ?thesis using ne by (auto simp: valid_action_def)
qed

subsection \<open>Raw score and normalised rating\<close>




end
